theory Spec2Isabelle
  imports Complex_Main "HOL-Library.Word"
begin

section \<open>Vectors and matrices\<close>

text \<open>
  The notebooks work on dense numeric arrays.  A vector is a list of reals, a matrix the
  list of its rows.  All arithmetic is exact (type \<open>real\<close>); the rounding of the
  notebooks' double precision numbers is not modelled.  The arrays of 64-bit integers
  of the Kalman filter notebook are modelled apart, with their wrap-around.

  numpy and R raise an error when the shapes of the operands of a product, a sum or a
  difference do not fit.  The list operations below truncate instead, so every theorem
  about them states the shapes it needs (\<open>mat_dim\<close>, \<open>length\<close>).  A matrix with no
  row has no column either (\<open>ncols [] = 0\<close>).
\<close>

type_synonym vec = "real list"
type_synonym mat = "real list list"

definition vadd :: "vec \<Rightarrow> vec \<Rightarrow> vec" where
  "vadd x y = map2 (+) x y"

definition vsub :: "vec \<Rightarrow> vec \<Rightarrow> vec" where
  "vsub x y = map2 (-) x y"

definition smult :: "real \<Rightarrow> vec \<Rightarrow> vec" where
  "smult c x = map (\<lambda>a. c * a) x"

definition dot :: "vec \<Rightarrow> vec \<Rightarrow> real" where
  "dot x y = sum_list (map2 (*) x y)"

definition zero_vec :: "nat \<Rightarrow> vec" where
  "zero_vec n = replicate n 0"

definition unit_vec :: "nat \<Rightarrow> nat \<Rightarrow> vec" where
  "unit_vec n j = map (\<lambda>i. if i = j then 1 else 0) [0..<n]"

definition ncols :: "'a list list \<Rightarrow> nat" where
  "ncols M = (case M of [] \<Rightarrow> 0 | r # _ \<Rightarrow> length r)"

definition mat_dim :: "nat \<Rightarrow> nat \<Rightarrow> mat \<Rightarrow> bool" where
  "mat_dim m n M \<longleftrightarrow> length M = m \<and> (\<forall>r\<in>set M. length r = n)"

definition col :: "'a list list \<Rightarrow> nat \<Rightarrow> 'a list" where
  "col M j = map (\<lambda>r. r ! j) M"

definition transpose_mat :: "'a list list \<Rightarrow> 'a list list" where
  "transpose_mat M = map (col M) [0..<ncols M]"

definition mat_vec :: "mat \<Rightarrow> vec \<Rightarrow> vec" where
  "mat_vec M v = map (\<lambda>r. dot r v) M"

definition vec_mat :: "vec \<Rightarrow> mat \<Rightarrow> vec" where
  "vec_mat v M = map (\<lambda>j. dot v (col M j)) [0..<ncols M]"

definition mat_mul :: "mat \<Rightarrow> mat \<Rightarrow> mat" where
  "mat_mul A B = map (\<lambda>r. vec_mat r B) A"

definition mat_add :: "mat \<Rightarrow> mat \<Rightarrow> mat" where
  "mat_add A B = map2 vadd A B"

definition mat_sub :: "mat \<Rightarrow> mat \<Rightarrow> mat" where
  "mat_sub A B = map2 vsub A B"

definition mat_smult :: "real \<Rightarrow> mat \<Rightarrow> mat" where
  "mat_smult c A = map (smult c) A"

definition eye :: "nat \<Rightarrow> mat" where
  "eye n = map (\<lambda>i. unit_vec n i) [0..<n]"

definition outer :: "vec \<Rightarrow> vec \<Rightarrow> mat" where
  "outer u v = map (\<lambda>a. smult a v) u"

text \<open>
  \<open>reflect c v\<close> is the map \<open>x \<mapsto> x - c (v \<cdot> x) v\<close>, the action of the matrix
  \<open>I - c v v\<^sup>T\<close> on a vector.
\<close>

definition reflect :: "real \<Rightarrow> vec \<Rightarrow> vec \<Rightarrow> vec" where
  "reflect c v x = vsub x (smult (c * dot v x) v)"

definition block_reflect :: "nat \<Rightarrow> real \<Rightarrow> vec \<Rightarrow> vec \<Rightarrow> vec" where
  "block_reflect i c v x = take i x @ reflect c v (drop i x)"

text \<open>Symmetric and positive semi-definite matrices of size \<open>d\<close>; inverses.\<close>

definition symmetric_mat :: "nat \<Rightarrow> mat \<Rightarrow> bool" where
  "symmetric_mat d M \<longleftrightarrow> mat_dim d d M \<and> (\<forall>i<d. \<forall>j<d. M ! i ! j = M ! j ! i)"

definition psd :: "nat \<Rightarrow> mat \<Rightarrow> bool" where
  "psd d M \<longleftrightarrow> (\<forall>x. length x = d \<longrightarrow> 0 \<le> dot x (mat_vec M x))"

definition bilin :: "mat \<Rightarrow> vec \<Rightarrow> vec \<Rightarrow> real" where
  "bilin M x y = dot x (mat_vec M y)"

definition sym_form :: "nat \<Rightarrow> mat \<Rightarrow> bool" where
  "sym_form d M \<longleftrightarrow> (\<forall>x y. length x = d \<longrightarrow> length y = d \<longrightarrow> bilin M x y = bilin M y x)"

definition pos_def :: "nat \<Rightarrow> mat \<Rightarrow> bool" where
  "pos_def d M \<longleftrightarrow> (\<forall>x. length x = d \<longrightarrow> x \<noteq> zero_vec d \<longrightarrow> 0 < dot x (mat_vec M x))"

definition is_inverse :: "nat \<Rightarrow> mat \<Rightarrow> mat \<Rightarrow> bool" where
  "is_inverse d M W \<longleftrightarrow> mat_dim d d W \<and> mat_mul M W = eye d \<and> mat_mul W M = eye d"

text \<open>
  The library routines that invert a matrix (\<^verbatim>\<open>solve\<close> in R, \<^verbatim>\<open>np.linalg.inv\<close> in
  numpy) are not code of the repository.  A function that calls one takes it as a
  parameter \<open>la_inv\<close>, and a theorem about that function assumes \<open>inverse_routine la_inv\<close>: what
  the routine returns is the inverse, and \<open>None\<close> stands for the error it raises on a
  singular matrix.  \<open>inv_2x2\<close> is such a routine for matrices of size two, the size of
  the Kalman filter notebook.
\<close>

definition inverse_routine :: "(mat \<Rightarrow> mat option) \<Rightarrow> bool" where
  "inverse_routine la_inv \<longleftrightarrow> (\<forall>M W. la_inv M = Some W \<longrightarrow> is_inverse (length M) M W)"

fun inv_2x2 :: "mat \<Rightarrow> mat option" where
  "inv_2x2 [[a, b], [c, d]] =
     (if a * d - b * c = 0 then None
      else Some [[d / (a * d - b * c), - b / (a * d - b * c)],
                 [- c / (a * d - b * c), a / (a * d - b * c)]])"
| "inv_2x2 _ = None"

section \<open>ADMM notebook: LASSO by the alternating direction method of multipliers\<close>

subsection \<open>The soft-thresholding operator\<close>

text \<open>
  \<^verbatim>\<open>soft.threshold <- function(x, thresh) { sign(x) * max(abs(x) - thresh, 0) }\<close>

  R's \<^verbatim>\<open>max\<close> takes the maximum over all elements of all its arguments, so
  \<^verbatim>\<open>max(abs(x) - thresh, 0)\<close> is one number: the largest of the values
  \<open>\<bar>x\<^sub>i\<bar> - thresh\<close> and \<open>0\<close>.  \<^verbatim>\<open>sign\<close> works element by element and
  is \<open>0\<close> at \<open>0\<close>.
\<close>

definition r_max :: "real list \<Rightarrow> real \<Rightarrow> real" where
  "r_max xs c = foldr max xs c"

definition soft_threshold :: "vec \<Rightarrow> real \<Rightarrow> vec" where
  "soft_threshold x thresh =
     (let m = r_max (map (\<lambda>a. \<bar>a\<bar> - thresh) x) 0 in map (\<lambda>a. sgn a * m) x)"


subsection \<open>The update loop\<close>

text \<open>
  \<^verbatim>\<open>Xty <- t(X) %*% y
XtX <- t(X) %*% X
XtX.rho.in <- solve(XtX + rho * diag(p + 1))
x.step <- z.step <- u.step <- rep(1, p + 1)
for (i in seq(100))
{
    x.step <- XtX.rho.in %*% (Xty + rho*(z.step - u.step))
    z.step <- soft.threshold(x.step +  u.step, lambda / rho)
    u.step <- u.step + x.step - z.step
}\<close>

  The number of columns of \<open>X\<close> is \<open>p + 1\<close>.  The loop runs over \<^verbatim>\<open>seq(100)\<close>, the list
  \<open>1, \<dots>, 100\<close>; the number of rounds is a parameter here, \<open>100\<close> in the notebook.
\<close>

record admm_state =
  x_step :: vec
  z_step :: vec
  u_step :: vec

definition admm_update :: "mat \<Rightarrow> vec \<Rightarrow> real \<Rightarrow> real \<Rightarrow> admm_state \<Rightarrow> admm_state" where
  "admm_update XtX_rho_in Xty rho lambda s =
     (let x = mat_vec XtX_rho_in (vadd Xty (smult rho (vsub (z_step s) (u_step s))));
          z = soft_threshold (vadd x (u_step s)) (lambda / rho);
          u = vsub (vadd (u_step s) x) z
      in \<lparr>x_step = x, z_step = z, u_step = u\<rparr>)"

definition admm_init :: "nat \<Rightarrow> admm_state" where
  "admm_init k = \<lparr>x_step = replicate k 1, z_step = replicate k 1, u_step = replicate k 1\<rparr>"

definition admm_loop :: "nat \<Rightarrow> mat \<Rightarrow> vec \<Rightarrow> real \<Rightarrow> real \<Rightarrow> admm_state \<Rightarrow> admm_state" where
  "admm_loop rounds XtX_rho_in Xty rho lambda s =
     fold (\<lambda>i. admm_update XtX_rho_in Xty rho lambda) [1..<Suc rounds] s"

definition admm_lasso ::
  "(mat \<Rightarrow> mat option) \<Rightarrow> nat \<Rightarrow> mat \<Rightarrow> vec \<Rightarrow> real \<Rightarrow> real \<Rightarrow> vec option" where
  "admm_lasso solve rounds X y lambda rho =
     (let Xty = mat_vec (transpose_mat X) y;
          XtX = mat_mul (transpose_mat X) X
      in case solve (mat_add XtX (mat_smult rho (eye (ncols X)))) of
           None \<Rightarrow> None
         | Some XtX_rho_in \<Rightarrow>
             Some (x_step (admm_loop rounds XtX_rho_in Xty rho lambda (admm_init (ncols X)))))"

text \<open>
  \<^verbatim>\<open>ols.coefficients <- coef(lm(y ~ 0 + X))\<close> and, in the QR notebook,
  \<^verbatim>\<open>sm.OLS(y, x).fit().params\<close> are the least-squares coefficients: a vector that
  minimises \<open>\<parallel>y - X b\<parallel>\<^sup>2\<close>.  Such a vector solves the normal equations
  \<open>X\<^sup>T X b = X\<^sup>T y\<close> (\<open>normal_equations\<close>, which can be evaluated).
\<close>

definition sq_err :: "mat \<Rightarrow> vec \<Rightarrow> vec \<Rightarrow> real" where
  "sq_err X y b = dot (vsub y (mat_vec X b)) (vsub y (mat_vec X b))"

definition least_squares :: "mat \<Rightarrow> vec \<Rightarrow> vec \<Rightarrow> bool" where
  "least_squares X y b \<longleftrightarrow>
     length b = ncols X \<and> (\<forall>b'. length b' = ncols X \<longrightarrow> sq_err X y b \<le> sq_err X y b')"

definition normal_equations :: "mat \<Rightarrow> vec \<Rightarrow> vec \<Rightarrow> bool" where
  "normal_equations X y b \<longleftrightarrow>
     length b = ncols X \<and>
     mat_vec (transpose_mat X) (mat_vec X b) = mat_vec (transpose_mat X) y"

definition full_col_rank :: "mat \<Rightarrow> bool" where
  "full_col_rank X \<longleftrightarrow>
     (\<forall>v. length v = ncols X \<longrightarrow> mat_vec X v = zero_vec (length X) \<longrightarrow> v = zero_vec (ncols X))"

subsection \<open>The simulated data\<close>

text \<open>
  \<^verbatim>\<open>n <- 1000
p <- 10
beta <- c(1, rnorm(p))
X <- cbind(1, matrix(rnorm(n * p), n))
y <- X %*% beta + rnorm(n)\<close>

  \<^verbatim>\<open>rnorm\<close> reads and advances the state of R's random number generator.  The state
  is passed explicitly: \<open>draw\<close> is the generator, a function from a state to the next
  number and the next state.  The notebook never calls \<^verbatim>\<open>set.seed\<close>, so its first
  draw starts from the state R was started with (R makes it from the clock and the
  process id).  \<^verbatim>\<open>matrix(v, n)\<close> fills a matrix of \<open>n\<close> rows column by column.
\<close>

fun rnorm :: "('g \<Rightarrow> real \<times> 'g) \<Rightarrow> nat \<Rightarrow> 'g \<Rightarrow> vec \<times> 'g" where
  "rnorm draw 0 g = ([], g)"
| "rnorm draw (Suc k) g =
     (case draw g of (a, g') \<Rightarrow> (case rnorm draw k g' of (as, g'') \<Rightarrow> (a # as, g'')))"

definition r_matrix :: "vec \<Rightarrow> nat \<Rightarrow> mat" where
  "r_matrix v n = map (\<lambda>i. map (\<lambda>j. v ! (j * n + i)) [0..<length v div n]) [0..<n]"

definition cbind1 :: "mat \<Rightarrow> mat" where
  "cbind1 M = map (\<lambda>r. 1 # r) M"

definition admm_simulate ::
  "('g \<Rightarrow> real \<times> 'g) \<Rightarrow> nat \<Rightarrow> nat \<Rightarrow> 'g \<Rightarrow> vec \<times> mat \<times> vec" where
  "admm_simulate draw n p g =
     (case rnorm draw p g of (bs, g1) \<Rightarrow>
      case rnorm draw (n * p) g1 of (xs, g2) \<Rightarrow>
      case rnorm draw n g2 of (es, g3) \<Rightarrow>
        (let beta = 1 # bs;
             X = cbind1 (r_matrix xs n);
             y = vadd (mat_vec X beta) es
         in (beta, X, y)))"

section \<open>Extended Kalman filter notebook\<close>

text \<open>
  \<^verbatim>\<open>def observation_model(x, w, k, beta):
    return np.add(np.cos(np.multiply(beta, x)), np.multiply(k, w))\<close>
\<close>

definition observation_model :: "vec \<Rightarrow> vec \<Rightarrow> real \<Rightarrow> real \<Rightarrow> vec" where
  "observation_model x w k beta = vadd (map cos (smult beta x)) (smult k w)"

text \<open>
  A numpy array has an element type.  The notebook builds arrays of 64-bit integers
  (\<^verbatim>\<open>cov_m = np.matrix([[0, 0], [0, 0]])\<close>, \<^verbatim>\<open>np.diag([k] * dim)\<close> with \<^verbatim>\<open>k = 1\<close>,
  \<^verbatim>\<open>np.diag([1] * K.shape[0])\<close>) and arrays of double precision numbers, and the
  functions below take both.  \<^verbatim>\<open>np.matmul\<close>, \<^verbatim>\<open>np.add\<close> and \<^verbatim>\<open>np.subtract\<close> of two
  integer arrays compute in 64-bit integers, which wrap around without an error; where
  one operand holds doubles, the other one is converted and the result holds doubles.
  A 64-bit integer is a \<open>64 word\<close>, read as a signed number by \<open>sint\<close>.  A double is
  modelled as a real, as everywhere in this theory.
\<close>

type_synonym int64 = "64 word"

datatype ndarray = Int64 "int64 list list" | Float64 mat

fun as_float64 :: "ndarray \<Rightarrow> mat" where
  "as_float64 (Float64 M) = M"
| "as_float64 (Int64 M) = map (map (\<lambda>a. real_of_int (sint a))) M"

definition matmul_int64 :: "int64 list list \<Rightarrow> int64 list list \<Rightarrow> int64 list list" where
  "matmul_int64 A B = map (\<lambda>r. map (\<lambda>j. sum_list (map2 (*) r (col B j))) [0..<ncols B]) A"

fun np_matmul :: "ndarray \<Rightarrow> ndarray \<Rightarrow> ndarray" where
  "np_matmul (Int64 A) (Int64 B) = Int64 (matmul_int64 A B)"
| "np_matmul a b = Float64 (mat_mul (as_float64 a) (as_float64 b))"

fun np_add :: "ndarray \<Rightarrow> ndarray \<Rightarrow> ndarray" where
  "np_add (Int64 A) (Int64 B) = Int64 (map2 (map2 (+)) A B)"
| "np_add a b = Float64 (mat_add (as_float64 a) (as_float64 b))"

fun np_subtract :: "ndarray \<Rightarrow> ndarray \<Rightarrow> ndarray" where
  "np_subtract (Int64 A) (Int64 B) = Int64 (map2 (map2 (-)) A B)"
| "np_subtract a b = Float64 (mat_sub (as_float64 a) (as_float64 b))"

text \<open>\<^verbatim>\<open>A.T\<close>, \<^verbatim>\<open>K.shape[0]\<close> and \<^verbatim>\<open>np.diag([1] * n)\<close>.\<close>

fun np_T :: "ndarray \<Rightarrow> ndarray" where
  "np_T (Int64 M) = Int64 (transpose_mat M)"
| "np_T (Float64 M) = Float64 (transpose_mat M)"

fun shape0 :: "ndarray \<Rightarrow> nat" where
  "shape0 (Int64 M) = length M"
| "shape0 (Float64 M) = length M"

definition np_diag_ones :: "nat \<Rightarrow> ndarray" where
  "np_diag_ones n = Int64 (map (\<lambda>i. map (\<lambda>j. if j = i then 1 else 0) [0..<n]) [0..<n])"

text \<open>
  \<^verbatim>\<open>def update_prior_covariance(cov_m, cov_v, A, L):
    su1 = np.matmul(np.matmul(A, cov_m), A.T)
    su2 = np.matmul(np.matmul(L, cov_v), L.T)
    return np.add(su1, su2)\<close>
\<close>

definition update_prior_covariance :: "ndarray \<Rightarrow> ndarray \<Rightarrow> ndarray \<Rightarrow> ndarray \<Rightarrow> ndarray" where
  "update_prior_covariance cov_m cov_v A L =
     (let su1 = np_matmul (np_matmul A cov_m) (np_T A);
          su2 = np_matmul (np_matmul L cov_v) (np_T L)
      in np_add su1 su2)"

text \<open>
  \<^verbatim>\<open>def k_k(cov_p, cov_w, B, J):
    cov_p_b = np.matmul(cov_p, B.T)
    cov_w_j = np.matmul(cov_w, J.T)
    within = np.add(np.matmul(B, cov_p_b), np.matmul(J, cov_w_j))
    return np.matmul(cov_p_b, np.linalg.inv(within))\<close>

  \<^verbatim>\<open>np.linalg.inv\<close> is the parameter \<open>la_inv\<close>; it converts an integer array to doubles
  and returns doubles.  The gain is \<open>None\<close> where it raises.
\<close>

definition k_k ::
  "(mat \<Rightarrow> mat option) \<Rightarrow> ndarray \<Rightarrow> ndarray \<Rightarrow> ndarray \<Rightarrow> ndarray \<Rightarrow> ndarray option" where
  "k_k la_inv cov_p cov_w B J =
     (let cov_p_b = np_matmul cov_p (np_T B);
          cov_w_j = np_matmul cov_w (np_T J);
          within_m = np_add (np_matmul B cov_p_b) (np_matmul J cov_w_j)
      in case la_inv (as_float64 within_m) of
           None \<Rightarrow> None
         | Some W \<Rightarrow> Some (np_matmul cov_p_b (Float64 W)))"

text \<open>
  \<^verbatim>\<open>def update_posterior_mean(y, x, w, k, beta, observation_model, mu_p, K):
    obs = observation_model(x, w, k, beta)
    su = np.dot(K, np.subtract(y, obs) - 2)
    return np.asarray(np.add(mu_p, su)).reshape(-1)\<close>

  The observation model is an argument of the function, as in the source.
\<close>

definition update_posterior_mean ::
  "vec \<Rightarrow> vec \<Rightarrow> vec \<Rightarrow> real \<Rightarrow> real \<Rightarrow> (vec \<Rightarrow> vec \<Rightarrow> real \<Rightarrow> real \<Rightarrow> vec) \<Rightarrow> vec \<Rightarrow> mat \<Rightarrow> vec"
  where
  "update_posterior_mean y x w k beta obs_model mu_p K =
     (let obs = obs_model x w k beta;
          su = mat_vec K (map (\<lambda>a. a - 2) (vsub y obs))
      in vadd mu_p su)"

text \<open>
  The formula the notebook states for the posterior mean, written from its text:
  \<open>\<mu>\<^sub>m = \<mu>\<^sub>p + K (y - h\<^sub>k(\<mu>\<^sub>p, 0))\<close>, where \<open>h\<^sub>k\<close> is the observation model.
\<close>

definition posterior_mean_formula ::
  "vec \<Rightarrow> real \<Rightarrow> real \<Rightarrow> (vec \<Rightarrow> vec \<Rightarrow> real \<Rightarrow> real \<Rightarrow> vec) \<Rightarrow> vec \<Rightarrow> mat \<Rightarrow> vec" where
  "posterior_mean_formula y k beta h mu_p K =
     vadd mu_p (mat_vec K (vsub y (h mu_p (zero_vec (length mu_p)) k beta)))"

text \<open>
  \<^verbatim>\<open>def update_posterior_covariance(K, B, cov_p):
    I = np.diag([1] * K.shape[0])
    su = np.subtract(I, np.matmul(K, B))
    return np.matmul(su, cov_p)\<close>
\<close>

definition update_posterior_covariance :: "ndarray \<Rightarrow> ndarray \<Rightarrow> ndarray \<Rightarrow> ndarray" where
  "update_posterior_covariance K B cov_p =
     (let I = np_diag_ones (shape0 K);
          su = np_subtract I (np_matmul K B)
      in np_matmul su cov_p)"

section \<open>Conjugate gradient notebook\<close>

text \<open>
  \<^verbatim>\<open>xk = sp.random.randn(N)
rk = A.dot(xk) - b
pk = -rk

while any(rk > 0.000001):
    alpha = rk.T.dot(rk) / pk.T.dot(A).dot(pk)
    xk = xk + alpha * pk
    rd = rk.T.dot(rk)
    rk = rk + alpha * A.dot(pk)
    beta = rk.T.dot(rk) / rd
    pk = -rk + beta * pk\<close>

  The starting point is an input.  \<open>cg_next\<close> is the body of the loop.  A division
  by zero gives a number that is not finite in numpy, and every later value is built
  from it; \<open>cg_step\<close> stops there with \<open>None\<close>.  The loop is a partial function:
  \<open>None\<close> is also its value where it runs for ever.  The second component of the result counts the rounds of the loop; the
  source does not compute it.
\<close>

record cg_state =
  xk :: vec
  rk :: vec
  pk :: vec

definition cg_init :: "mat \<Rightarrow> vec \<Rightarrow> vec \<Rightarrow> cg_state" where
  "cg_init A b x0 =
     (let r = vsub (mat_vec A x0) b in \<lparr>xk = x0, rk = r, pk = smult (- 1) r\<rparr>)"

definition cg_continue :: "cg_state \<Rightarrow> bool" where
  "cg_continue s \<longleftrightarrow> list_ex (\<lambda>a. a > 0.000001) (rk s)"

definition cg_next :: "mat \<Rightarrow> cg_state \<Rightarrow> cg_state" where
  "cg_next A s =
     (let alpha = dot (rk s) (rk s) / dot (vec_mat (pk s) A) (pk s);
          x = vadd (xk s) (smult alpha (pk s));
          rd = dot (rk s) (rk s);
          r = vadd (rk s) (smult alpha (mat_vec A (pk s)));
          beta = dot r r / rd;
          p = vadd (smult (- 1) r) (smult beta (pk s))
      in \<lparr>xk = x, rk = r, pk = p\<rparr>)"

definition cg_step :: "mat \<Rightarrow> cg_state \<Rightarrow> cg_state option" where
  "cg_step A s =
     (if dot (vec_mat (pk s) A) (pk s) = 0 \<or> dot (rk s) (rk s) = 0 then None
      else Some (cg_next A s))"

partial_function (option) cg_loop :: "mat \<Rightarrow> cg_state \<Rightarrow> nat \<Rightarrow> (cg_state \<times> nat) option" where
  "cg_loop A s k =
     (if cg_continue s
      then (case cg_step A s of None \<Rightarrow> None | Some s' \<Rightarrow> cg_loop A s' (Suc k))
      else Some (s, k))"

definition conjugate_gradient :: "mat \<Rightarrow> vec \<Rightarrow> vec \<Rightarrow> (cg_state \<times> nat) option" where
  "conjugate_gradient A b x0 = cg_loop A (cg_init A b x0) 0"

text \<open>The state after \<open>j\<close> rounds of the loop body, the exit test left aside.\<close>

definition cg_rounds :: "mat \<Rightarrow> cg_state \<Rightarrow> nat \<Rightarrow> cg_state" where
  "cg_rounds A s j = (cg_next A ^^ j) s"

text \<open>
  The relations between the residuals \<open>rk\<close> and the directions \<open>pk\<close> of the first \<open>k\<close>
  rounds that the method rests on: each residual is orthogonal to the earlier
  residuals and directions, and the directions are conjugate with respect to \<open>A\<close>.
\<close>

definition cg_inv :: "nat \<Rightarrow> mat \<Rightarrow> cg_state \<Rightarrow> nat \<Rightarrow> bool" where
  "cg_inv N A s0 k \<longleftrightarrow>
     (\<forall>j\<le>k. length (rk (cg_rounds A s0 j)) = N \<and> length (pk (cg_rounds A s0 j)) = N \<and>
        dot (rk (cg_rounds A s0 j)) (pk (cg_rounds A s0 j)) =
          - dot (rk (cg_rounds A s0 j)) (rk (cg_rounds A s0 j))) \<and>
     (\<forall>j\<le>k. \<forall>i<j.
        dot (rk (cg_rounds A s0 j)) (rk (cg_rounds A s0 i)) = 0 \<and>
        bilin A (pk (cg_rounds A s0 i)) (pk (cg_rounds A s0 j)) = 0 \<and>
        dot (rk (cg_rounds A s0 j)) (pk (cg_rounds A s0 i)) = 0)"

section \<open>QR notebook: Householder triangularisation and linear regression\<close>

text \<open>
  \<^verbatim>\<open>def House(a):
    I = np.eye(a.shape[0])
    v = a / (a[0] + np.copysign(np.linalg.norm(a), a[0]))
    v[0] = 1
    H = I - (2 / np.dot(v, v)) * np.dot(v[:, None], v[None, :])
    return H\<close>

  \<^verbatim>\<open>a[0]\<close> raises on an empty vector.  The divisor is zero exactly when \<open>a\<close> is the
  zero vector; numpy then fills \<open>v\<close> with values that are not numbers, and only
  \<^verbatim>\<open>v[0] = 1\<close> overwrites one of them.  Both cases are \<open>None\<close> here.
\<close>

definition copysign :: "real \<Rightarrow> real \<Rightarrow> real" where
  "copysign x y = (if y < 0 then - \<bar>x\<bar> else \<bar>x\<bar>)"

definition norm2 :: "vec \<Rightarrow> real" where
  "norm2 a = sqrt (dot a a)"

definition House :: "vec \<Rightarrow> mat option" where
  "House a =
     (case a of
        [] \<Rightarrow> None
      | a0 # _ \<Rightarrow>
          let I = eye (length a);
              d = a0 + copysign (norm2 a) a0
          in if d = 0 \<and> 1 < length a then None
             else
               let v = (map (\<lambda>x. x / d) a)[0 := 1];
                   H = mat_sub I (mat_smult (2 / dot v v) (outer v v))
               in Some H)"

text \<open>
  \<^verbatim>\<open>def qr(A):
    m, n = A.shape
    Q = np.eye(m)
    for i in range(n - (m == n)):
        H = np.eye(m)
        H[i:, i:] = House(A[i:, i])
        Q = np.dot(Q, H)
        A = np.dot(H, A)
    return Q, A\<close>

  \<open>embed_block m i Hs\<close> is the identity of size \<open>m\<close> with \<open>Hs\<close> written into the rows
  and columns from \<open>i\<close> on.
\<close>

definition embed_block :: "nat \<Rightarrow> nat \<Rightarrow> mat \<Rightarrow> mat" where
  "embed_block m i Hs =
     map (\<lambda>r. map (\<lambda>c. if i \<le> r \<and> i \<le> c then Hs ! (r - i) ! (c - i)
                        else if r = c then 1 else 0) [0..<m]) [0..<m]"

definition qr_step :: "nat \<Rightarrow> nat \<Rightarrow> mat \<times> mat \<Rightarrow> (mat \<times> mat) option" where
  "qr_step m i s =
     (case s of (Q, A) \<Rightarrow>
        (case House (drop i (col A i)) of
           None \<Rightarrow> None
         | Some Hs \<Rightarrow> let H = embed_block m i Hs in Some (mat_mul Q H, mat_mul H A)))"

fun qr_loop :: "nat \<Rightarrow> nat list \<Rightarrow> mat \<times> mat \<Rightarrow> (mat \<times> mat) option" where
  "qr_loop m [] s = Some s"
| "qr_loop m (i # is) s =
     (case qr_step m i s of None \<Rightarrow> None | Some s' \<Rightarrow> qr_loop m is s')"

definition qr :: "mat \<Rightarrow> (mat \<times> mat) option" where
  "qr A =
     (let m = length A;
          n = ncols A;
          Q = eye m
      in qr_loop m [0..<n - (if m = n then 1 else 0)] (Q, A))"

text \<open>
  \<^verbatim>\<open>R = R[:P, :P]
Q = Q[:, :P]
beta_qr = linalg.solve_triangular(R, np.dot(Q.T, y))\<close>

  scipy's \<^verbatim>\<open>solve_triangular\<close> reads the upper triangle of its matrix only, solves
  by back substitution from the last row up, and raises on a zero diagonal entry.
  \<open>solve_upper R c i\<close> solves the rows \<open>R\<close>, the first of which is row \<open>i\<close> of the
  whole matrix.
\<close>

fun solve_upper :: "mat \<Rightarrow> vec \<Rightarrow> nat \<Rightarrow> vec option" where
  "solve_upper [] [] i = Some []"
| "solve_upper (r # rs) (c # cs) i =
     (case solve_upper rs cs (Suc i) of
        None \<Rightarrow> None
      | Some xs \<Rightarrow>
          if r ! i = 0 then None
          else Some ((c - dot (drop (Suc i) r) xs) / r ! i # xs))"
| "solve_upper _ _ i = None"

definition solve_triangular :: "mat \<Rightarrow> vec \<Rightarrow> vec option" where
  "solve_triangular R c = solve_upper R c 0"

definition beta_qr :: "mat \<Rightarrow> vec \<Rightarrow> vec option" where
  "beta_qr x y =
     (case qr x of
        None \<Rightarrow> None
      | Some (Q, R) \<Rightarrow>
          let P = ncols x;
              R1 = map (take P) (take P R);
              Q1 = map (take P) Q
          in solve_triangular R1 (mat_vec (transpose_mat Q1) y))"

definition upper_triangular :: "mat \<Rightarrow> bool" where
  "upper_triangular R \<longleftrightarrow> (\<forall>i<length R. \<forall>j<i. j < length (R ! i) \<longrightarrow> R ! i ! j = 0)"

text \<open>
  The pivot columns of \<open>qr\<close>: at round \<open>i\<close> the part of column \<open>i\<close> of the current matrix
  from row \<open>i\<close> down.  \<open>pivots_nonzero\<close> says that none of them is the zero vector, at
  every round that is reached.
\<close>

fun pivots_nonzero :: "nat \<Rightarrow> nat list \<Rightarrow> mat \<times> mat \<Rightarrow> bool" where
  "pivots_nonzero m [] s = True"
| "pivots_nonzero m (i # is) s =
     (list_ex (\<lambda>a. a \<noteq> 0) (drop i (col (snd s) i)) \<and>
      (case qr_step m i s of None \<Rightarrow> True | Some s' \<Rightarrow> pivots_nonzero m is s'))"

definition qr_pivots_nonzero :: "mat \<Rightarrow> bool" where
  "qr_pivots_nonzero A =
     pivots_nonzero (length A) [0..<ncols A - (if length A = ncols A then 1 else 0)]
       (eye (length A), A)"

text \<open>
  The invariant of the loop of \<open>qr\<close> before round \<open>i\<close>, for an input \<open>A0\<close> of \<open>m\<close> rows
  and \<open>n\<close> columns: \<open>Q\<close> preserves inner products, \<open>Q\<close> times the current matrix is
  \<open>A0\<close>, and the first \<open>i\<close> columns of the current matrix are zero below the diagonal
  and not zero on it.
\<close>

definition qr_inv :: "nat \<Rightarrow> nat \<Rightarrow> mat \<Rightarrow> nat \<Rightarrow> mat \<times> mat \<Rightarrow> bool" where
  "qr_inv m n A0 i s \<longleftrightarrow>
     (case s of (Q, A) \<Rightarrow>
        mat_dim m m Q \<and> mat_dim m n A \<and>
        (\<forall>x y. length x = m \<longrightarrow> length y = m \<longrightarrow>
           dot (mat_vec Q x) (mat_vec Q y) = dot x y) \<and>
        (\<forall>v. length v = n \<longrightarrow> mat_vec Q (mat_vec A v) = mat_vec A0 v) \<and>
        (\<forall>c<i. \<forall>r<m. c < r \<longrightarrow> A ! r ! c = 0) \<and>
        (\<forall>c<i. A ! c ! c \<noteq> 0))"

text \<open>
  \<^verbatim>\<open>P = 5
np.random.seed(23)
beta = np.random.normal(size=P)
x = np.random.normal(size=(100, P))
y =  np.dot(x, beta) + np.random.normal(size=(100))\<close>

  \<^verbatim>\<open>np.random.seed\<close> sets the state of the generator from the seed alone
  (\<open>seed_state\<close>); numpy fills a matrix row by row.
\<close>

definition np_matrix :: "vec \<Rightarrow> nat \<Rightarrow> nat \<Rightarrow> mat" where
  "np_matrix v m n = map (\<lambda>i. map (\<lambda>j. v ! (i * n + j)) [0..<n]) [0..<m]"

definition qr_simulate ::
  "(nat \<Rightarrow> 'g) \<Rightarrow> ('g \<Rightarrow> real \<times> 'g) \<Rightarrow> nat \<Rightarrow> nat \<Rightarrow> 'g \<Rightarrow> vec \<times> mat \<times> vec" where
  "qr_simulate seed_state draw n P g =
     (case rnorm draw P (seed_state 23) of (beta, g1) \<Rightarrow>
      case rnorm draw (n * P) g1 of (xs, g2) \<Rightarrow>
      case rnorm draw n g2 of (es, g3) \<Rightarrow>
        (let x = np_matrix xs n P;
             y = vadd (mat_vec x beta) es
         in (beta, x, y)))"

section \<open>Vector and matrix algebra\<close>

lemma mat_dimD:
  "mat_dim m n M \<Longrightarrow> length M = m"
  "mat_dim m n M \<Longrightarrow> i < m \<Longrightarrow> length (M ! i) = n"
  by (auto simp: mat_dim_def)

lemma mat_dimI:
  "length M = m \<Longrightarrow> (\<And>i. i < m \<Longrightarrow> length (M ! i) = n) \<Longrightarrow> mat_dim m n M"
  by (auto simp: mat_dim_def in_set_conv_nth)

lemma ncols_dim: "mat_dim m n M \<Longrightarrow> 0 < m \<Longrightarrow> ncols M = n"
  by (cases M) (auto simp: mat_dim_def ncols_def)

lemma length_vadd [simp]: "length (vadd x y) = min (length x) (length y)"
  by (simp add: vadd_def)

lemma length_vsub [simp]: "length (vsub x y) = min (length x) (length y)"
  by (simp add: vsub_def)

lemma length_smult [simp]: "length (smult c x) = length x"
  by (simp add: smult_def)

lemma nth_vadd [simp]: "i < length x \<Longrightarrow> i < length y \<Longrightarrow> vadd x y ! i = x ! i + y ! i"
  by (simp add: vadd_def)

lemma nth_vsub [simp]: "i < length x \<Longrightarrow> i < length y \<Longrightarrow> vsub x y ! i = x ! i - y ! i"
  by (simp add: vsub_def)

lemma nth_smult [simp]: "i < length x \<Longrightarrow> smult c x ! i = c * x ! i"
  by (simp add: smult_def)

lemma length_unit_vec [simp]: "length (unit_vec n j) = n"
  by (simp add: unit_vec_def)

lemma nth_unit_vec [simp]: "i < n \<Longrightarrow> unit_vec n j ! i = (if i = j then 1 else 0)"
  by (simp add: unit_vec_def)

lemma length_zero_vec [simp]: "length (zero_vec n) = n"
  by (simp add: zero_vec_def)

lemma nth_zero_vec [simp]: "i < n \<Longrightarrow> zero_vec n ! i = 0"
  by (simp add: zero_vec_def)

lemma dot_sum: "length x = n \<Longrightarrow> length y = n \<Longrightarrow> dot x y = (\<Sum>i<n. x ! i * y ! i)"
  by (simp add: dot_def sum_list_sum_nth atLeast0LessThan)

lemma dot_commute: "length x = length y \<Longrightarrow> dot x y = dot y x"
  by (simp add: dot_sum [OF refl] dot_sum [OF _ refl] mult.commute)

lemma dot_vadd_left:
  "length x = n \<Longrightarrow> length y = n \<Longrightarrow> length z = n \<Longrightarrow> dot (vadd x y) z = dot x z + dot y z"
  by (simp add: dot_sum [where n = n] distrib_right sum.distrib)

lemma dot_vsub_left:
  "length x = n \<Longrightarrow> length y = n \<Longrightarrow> length z = n \<Longrightarrow> dot (vsub x y) z = dot x z - dot y z"
  by (simp add: dot_sum [where n = n] left_diff_distrib sum_subtractf)

lemma dot_smult_left: "length x = n \<Longrightarrow> length z = n \<Longrightarrow> dot (smult c x) z = c * dot x z"
  by (simp add: dot_sum [where n = n] sum_distrib_left mult.assoc)

lemma dot_vadd_right:
  "length x = n \<Longrightarrow> length y = n \<Longrightarrow> length z = n \<Longrightarrow> dot z (vadd x y) = dot z x + dot z y"
  by (simp add: dot_sum [where n = n] distrib_left sum.distrib)

lemma dot_vsub_right:
  "length x = n \<Longrightarrow> length y = n \<Longrightarrow> length z = n \<Longrightarrow> dot z (vsub x y) = dot z x - dot z y"
  by (simp add: dot_sum [where n = n] right_diff_distrib sum_subtractf)

lemma dot_smult_right: "length x = n \<Longrightarrow> length z = n \<Longrightarrow> dot z (smult c x) = c * dot z x"
  by (simp add: dot_sum [where n = n] sum_distrib_left mult.assoc mult.left_commute)

lemma dot_self_nonneg: "0 \<le> dot x x"
  by (simp add: dot_sum [OF refl refl] sum_nonneg)

lemma dot_self_eq_0: "dot x x = 0 \<longleftrightarrow> (\<forall>a\<in>set x. a = 0)"
proof -
  have "dot x x = 0 \<longleftrightarrow> (\<forall>i<length x. x ! i = 0)"
    by (auto simp: dot_sum [OF refl refl] sum_nonneg_eq_0_iff)
  then show ?thesis by (simp add: all_set_conv_all_nth)
qed

lemma zero_vec_iff: "x = zero_vec (length x) \<longleftrightarrow> (\<forall>a\<in>set x. a = 0)"
  by (auto simp: zero_vec_def list_eq_iff_nth_eq all_set_conv_all_nth)

lemma dot_self_eq_0_zero: "length x = n \<Longrightarrow> dot x x = 0 \<longleftrightarrow> x = zero_vec n"
  using zero_vec_iff [of x] by (auto simp: dot_self_eq_0)

lemma dot_unit_right: "length x = n \<Longrightarrow> j < n \<Longrightarrow> dot x (unit_vec n j) = x ! j"
  by (simp add: dot_sum [where n = n] if_distrib [of "\<lambda>c. _ * c"] sum.delta cong: if_cong)

lemma dot_unit_left: "length x = n \<Longrightarrow> j < n \<Longrightarrow> dot (unit_vec n j) x = x ! j"
  by (simp add: dot_commute dot_unit_right)

lemma dot_zero_right: "length x = n \<Longrightarrow> dot x (zero_vec n) = 0"
  by (simp add: dot_sum [where n = n])

lemma dot_zero_left: "length x = n \<Longrightarrow> dot (zero_vec n) x = 0"
  by (simp add: dot_sum [where n = n])

lemma length_mat_vec [simp]: "length (mat_vec M v) = length M"
  by (simp add: mat_vec_def)

lemma nth_mat_vec [simp]: "i < length M \<Longrightarrow> mat_vec M v ! i = dot (M ! i) v"
  by (simp add: mat_vec_def)

lemma length_col [simp]: "length (col M j) = length M"
  by (simp add: col_def)

lemma nth_col [simp]: "i < length M \<Longrightarrow> col M j ! i = M ! i ! j"
  by (simp add: col_def)

lemma length_vec_mat: "mat_dim p n B \<Longrightarrow> 0 < p \<Longrightarrow> length (vec_mat v B) = n"
  by (simp add: vec_mat_def ncols_dim [of p n B])

lemma nth_vec_mat: "mat_dim p n B \<Longrightarrow> 0 < p \<Longrightarrow> j < n \<Longrightarrow> vec_mat v B ! j = dot v (col B j)"
  by (simp add: vec_mat_def ncols_dim [of p n B])

lemma mat_dim_transpose: "mat_dim m n M \<Longrightarrow> 0 < m \<Longrightarrow> mat_dim n m (transpose_mat M)"
  by (simp add: transpose_mat_def ncols_dim [of m n M] mat_dim_def)

lemma nth_transpose: "mat_dim m n M \<Longrightarrow> 0 < m \<Longrightarrow> j < n \<Longrightarrow> transpose_mat M ! j = col M j"
  by (simp add: transpose_mat_def ncols_dim [of m n M])

lemma nth_transpose_entry:
  "mat_dim m n M \<Longrightarrow> 0 < m \<Longrightarrow> i < m \<Longrightarrow> j < n \<Longrightarrow> transpose_mat M ! j ! i = M ! i ! j"
  by (simp add: nth_transpose [of m n M] mat_dimD(1) [of m n M])

lemma length_transpose: "mat_dim m n M \<Longrightarrow> 0 < m \<Longrightarrow> length (transpose_mat M) = n"
  by (simp add: transpose_mat_def ncols_dim [of m n M])

lemma length_mat_mul [simp]: "length (mat_mul A B) = length A"
  by (simp add: mat_mul_def)

lemma mat_dim_mul: "mat_dim m p A \<Longrightarrow> mat_dim p n B \<Longrightarrow> 0 < p \<Longrightarrow> mat_dim m n (mat_mul A B)"
  by (simp add: mat_mul_def length_vec_mat [of p n B] mat_dim_def)

lemma nth_mat_mul:
  "mat_dim m p A \<Longrightarrow> mat_dim p n B \<Longrightarrow> 0 < p \<Longrightarrow> i < m \<Longrightarrow> j < n \<Longrightarrow>
   mat_mul A B ! i ! j = dot (A ! i) (col B j)"
  by (simp add: mat_mul_def nth_vec_mat [of p n B] mat_dim_def)

lemma mat_dim_eye [simp]: "mat_dim n n (eye n)"
  by (simp add: mat_dim_def eye_def)

lemma length_eye [simp]: "length (eye n) = n"
  by (simp add: eye_def)

lemma nth_eye_row: "i < n \<Longrightarrow> eye n ! i = unit_vec n i"
  by (simp add: eye_def)

lemma nth_eye: "i < n \<Longrightarrow> j < n \<Longrightarrow> eye n ! i ! j = (if i = j then 1 else 0)"
  by (simp add: eye_def)

lemma mat_eqI:
  assumes "mat_dim m n A" and "mat_dim m n B"
    and "\<And>i j. i < m \<Longrightarrow> j < n \<Longrightarrow> A ! i ! j = B ! i ! j"
  shows "A = B"
proof (rule nth_equalityI)
  show "length A = length B" using assms by (simp add: mat_dimD)
  fix i assume "i < length A"
  then have i: "i < m" using assms by (simp add: mat_dimD)
  show "A ! i = B ! i"
    by (rule nth_equalityI) (use assms i in \<open>simp_all add: mat_dimD\<close>)
qed

lemma mat_vec_unit: "mat_dim m n M \<Longrightarrow> j < n \<Longrightarrow> mat_vec M (unit_vec n j) = col M j"
  by (rule nth_equalityI) (simp_all add: mat_dimD dot_unit_right)

lemma mat_vec_mul:
  assumes "mat_dim m p A" and "mat_dim p n B" and "0 < p" and "length v = n"
  shows "mat_vec (mat_mul A B) v = mat_vec A (mat_vec B v)"
proof (rule nth_equalityI)
  show "length (mat_vec (mat_mul A B) v) = length (mat_vec A (mat_vec B v))"
    by simp
  fix i assume "i < length (mat_vec (mat_mul A B) v)"
  then have i: "i < m" using assms by (simp add: mat_dimD)
  have dAB: "mat_dim m n (mat_mul A B)" using assms by (simp add: mat_dim_mul)
  have "dot (mat_mul A B ! i) v = (\<Sum>j<n. (\<Sum>k<p. A ! i ! k * B ! k ! j) * v ! j)"
    using assms i dAB
    by (simp add: dot_sum [where n = n] mat_dimD nth_mat_mul [where m = m and p = p and n = n]
        dot_sum [where n = p])
  also have "\<dots> = (\<Sum>j<n. \<Sum>k<p. A ! i ! k * B ! k ! j * v ! j)"
    by (simp add: sum_distrib_right)
  also have "\<dots> = (\<Sum>k<p. \<Sum>j<n. A ! i ! k * B ! k ! j * v ! j)"
    by (rule sum.swap)
  also have "\<dots> = (\<Sum>k<p. A ! i ! k * (\<Sum>j<n. B ! k ! j * v ! j))"
    by (simp add: sum_distrib_left mult.assoc)
  also have "\<dots> = dot (A ! i) (mat_vec B v)"
    using assms i by (simp add: dot_sum [where n = p] mat_dimD dot_sum [where n = n])
  finally show "mat_vec (mat_mul A B) v ! i = mat_vec A (mat_vec B v) ! i"
    using assms i dAB by (simp add: mat_dimD)
qed

lemma dot_mat_vec_transpose:
  assumes "mat_dim m n A" and "0 < m" and "length x = n" and "length y = m"
  shows "dot (mat_vec A x) y = dot x (mat_vec (transpose_mat A) y)"
proof -
  have dT: "mat_dim n m (transpose_mat A)" using assms by (simp add: mat_dim_transpose)
  have "dot (mat_vec A x) y = (\<Sum>i<m. (\<Sum>j<n. A ! i ! j * x ! j) * y ! i)"
    using assms by (simp add: dot_sum [where n = m] mat_dimD dot_sum [where n = n])
  also have "\<dots> = (\<Sum>i<m. \<Sum>j<n. x ! j * (A ! i ! j * y ! i))"
    by (simp add: sum_distrib_right mult.assoc mult.left_commute)
  also have "\<dots> = (\<Sum>j<n. \<Sum>i<m. x ! j * (A ! i ! j * y ! i))"
    by (rule sum.swap)
  also have "\<dots> = (\<Sum>j<n. x ! j * (\<Sum>i<m. A ! i ! j * y ! i))"
    by (simp add: sum_distrib_left)
  also have "\<dots> = dot x (mat_vec (transpose_mat A) y)"
    using assms dT
    by (simp add: dot_sum [where n = n] mat_dimD nth_transpose [where m = m and n = n]
        dot_sum [where n = m])
  finally show ?thesis .
qed

lemma vec_mat_transpose:
  assumes "mat_dim m n A" and "0 < m" and "length v = m"
  shows "vec_mat v A = mat_vec (transpose_mat A) v"
  using assms
  by (simp add: vec_mat_def mat_vec_def transpose_mat_def ncols_dim [of m n A] mat_dimD
      dot_commute)

lemma mat_vec_vadd:
  "mat_dim m n A \<Longrightarrow> length x = n \<Longrightarrow> length y = n \<Longrightarrow>
   mat_vec A (vadd x y) = vadd (mat_vec A x) (mat_vec A y)"
  by (rule nth_equalityI) (simp_all add: mat_dimD dot_vadd_right [where n = n])

lemma mat_vec_vsub:
  "mat_dim m n A \<Longrightarrow> length x = n \<Longrightarrow> length y = n \<Longrightarrow>
   mat_vec A (vsub x y) = vsub (mat_vec A x) (mat_vec A y)"
  by (rule nth_equalityI) (simp_all add: mat_dimD dot_vsub_right [where n = n])

lemma mat_vec_smult:
  "mat_dim m n A \<Longrightarrow> length x = n \<Longrightarrow> mat_vec A (smult c x) = smult c (mat_vec A x)"
  by (rule nth_equalityI) (simp_all add: mat_dimD dot_smult_right [where n = n])

lemma mat_vec_zero: "mat_dim m n A \<Longrightarrow> mat_vec A (zero_vec n) = zero_vec m"
  by (rule nth_equalityI) (simp_all add: mat_dimD dot_zero_right [where n = n])

lemma mat_vec_eye: "length v = n \<Longrightarrow> mat_vec (eye n) v = v"
  by (rule nth_equalityI) (simp_all add: nth_eye_row dot_unit_left)

lemma mat_dim_add: "mat_dim m n A \<Longrightarrow> mat_dim m n B \<Longrightarrow> mat_dim m n (mat_add A B)"
  by (auto simp: mat_dim_def mat_add_def set_zip)

lemma mat_dim_sub: "mat_dim m n A \<Longrightarrow> mat_dim m n B \<Longrightarrow> mat_dim m n (mat_sub A B)"
  by (auto simp: mat_dim_def mat_sub_def set_zip)

lemma mat_dim_smult: "mat_dim m n A \<Longrightarrow> mat_dim m n (mat_smult c A)"
  by (auto simp: mat_dim_def mat_smult_def)

lemma mat_vec_add:
  "mat_dim m n A \<Longrightarrow> mat_dim m n B \<Longrightarrow> length v = n \<Longrightarrow>
   mat_vec (mat_add A B) v = vadd (mat_vec A v) (mat_vec B v)"
  by (rule nth_equalityI) (simp_all add: mat_dimD mat_add_def dot_vadd_left [where n = n])

lemma mat_vec_sub:
  "mat_dim m n A \<Longrightarrow> mat_dim m n B \<Longrightarrow> length v = n \<Longrightarrow>
   mat_vec (mat_sub A B) v = vsub (mat_vec A v) (mat_vec B v)"
  by (rule nth_equalityI) (simp_all add: mat_dimD mat_sub_def dot_vsub_left [where n = n])

lemma mat_vec_mat_smult:
  "mat_dim m n A \<Longrightarrow> length v = n \<Longrightarrow> mat_vec (mat_smult c A) v = smult c (mat_vec A v)"
  by (rule nth_equalityI) (simp_all add: mat_dimD mat_smult_def dot_smult_left [where n = n])

lemma mat_eq_by_vec:
  assumes "mat_dim m n A" and "mat_dim m n B"
    and "\<And>v. length v = n \<Longrightarrow> mat_vec A v = mat_vec B v"
  shows "A = B"
proof (rule mat_eqI [OF assms(1,2)])
  fix i j assume ij: "i < m" "j < n"
  have "col A j = col B j"
    using assms(3) [of "unit_vec n j"] mat_vec_unit [OF assms(1) ij(2)]
      mat_vec_unit [OF assms(2) ij(2)] by simp
  then have "col A j ! i = col B j ! i" by simp
  then show "A ! i ! j = B ! i ! j"
    using assms ij by (simp add: mat_dimD)
qed

lemma mat_entry_by_units:
  assumes "mat_dim m n A" and "i < m" and "j < n"
  shows "A ! i ! j = dot (unit_vec m i) (mat_vec A (unit_vec n j))"
  using assms by (simp add: mat_vec_unit dot_unit_left mat_dimD)

section \<open>The soft-thresholding operator reduces to one number\<close>




lemma length_soft_threshold [simp]: "length (soft_threshold x t) = length x"
  by (simp add: soft_threshold_def Let_def)




section \<open>The posterior mean of the Kalman filter\<close>

text \<open>
  For inputs of fitting shapes the function returns the stated formula's value minus
  \<open>K\<close> applied to the constant vector \<open>(2, \<dots>, 2)\<close>: the code subtracts \<open>2\<close> from
  every element of \<open>y - obs\<close> before it multiplies by the gain.
\<close>

lemma update_posterior_mean_offset:
  assumes "length y = d" and "length (h x w k beta) = d" and "mat_dim d d K"
    and "length mu_p = d"
  shows "update_posterior_mean y x w k beta h mu_p K =
     vsub (vadd mu_p (mat_vec K (vsub y (h x w k beta)))) (mat_vec K (replicate d 2))"
proof -
  have "map (\<lambda>a. a - 2) (vsub y (h x w k beta)) = vsub (vsub y (h x w k beta)) (replicate d 2)"
    using assms by (intro nth_equalityI) simp_all
  then have "mat_vec K (map (\<lambda>a. a - 2) (vsub y (h x w k beta))) =
      vsub (mat_vec K (vsub y (h x w k beta))) (mat_vec K (replicate d 2))"
    using assms by (simp add: mat_vec_vsub [where m = d and n = d])
  then show ?thesis
    using assms
    by (intro nth_equalityI) (simp_all add: update_posterior_mean_def Let_def mat_dimD)
qed

text \<open>
  C2 (the code departs from the claim).  With \<open>y = (2, 2)\<close> as in the notebook,
  \<open>k = 1\<close>, \<open>\<beta> = \<pi>\<close>, noise mean \<open>0\<close>, prior mean \<open>(1/2, 1)\<close> and gain
  \<open>diag(-1/3, -3/4)\<close>, the observation model gives \<open>(0, -1)\<close>.  The stated formula
  \<open>\<mu>\<^sub>p + K (y - h\<^sub>k(\<mu>\<^sub>p, 0))\<close> is \<open>(-1/6, -5/4)\<close>; the function returns
  \<open>(1/2, 1/4)\<close>.
\<close>

theorem update_posterior_mean_subtracts_two:
  "update_posterior_mean [2, 2] [1 / 2, 1] [0, 0] 1 pi observation_model [1 / 2, 1]
      [[- 1 / 3, 0], [0, - 3 / 4]] = [1 / 2, 1 / 4] \<and>
   posterior_mean_formula [2, 2] 1 pi observation_model [1 / 2, 1]
      [[- 1 / 3, 0], [0, - 3 / 4]] = [- 1 / 6, - 5 / 4]"
  by (simp add: update_posterior_mean_def posterior_mean_formula_def observation_model_def
      Let_def vadd_def vsub_def smult_def mat_vec_def dot_def zero_vec_def)

section \<open>The exit test of the conjugate gradient loop\<close>

text \<open>
  C3 (the code departs from the claim).  The loop goes on while some element of \<open>rk\<close>
  is greater than \<open>0.000001\<close>; it does not look at the absolute value.  For
  \<open>A = diag(1, 2)\<close>, \<open>b = 0\<close> and the starting point \<open>(-1, 1/2)\<close> the loop runs once and
  stops at \<open>xk = (-1/3, -1/6)\<close>, where the residual \<open>A xk - b\<close> is \<open>(-1/3, -1/3)\<close>.
  The solution of the system is \<open>(0, 0)\<close>.
\<close>

theorem conjugate_gradient_negative_residual:
  "conjugate_gradient [[1, 0], [0, 2]] [0, 0] [- 1, 1 / 2] =
     Some (\<lparr>xk = [- 1 / 3, - 1 / 6], rk = [- 1 / 3, - 1 / 3], pk = [4 / 9, 2 / 9]\<rparr>, 1) \<and>
   vsub (mat_vec [[1, 0], [0, 2]] [- 1 / 3, - 1 / 6]) [0, 0] = [- 1 / 3, - 1 / 3] \<and>
   \<bar>- 1 / 3 :: real\<bar> > 0.000001"
  by (subst conjugate_gradient_def, subst cg_loop.simps, subst cg_loop.simps)
    (simp add: cg_init_def cg_continue_def cg_step_def cg_next_def Let_def vsub_def vadd_def
      mat_vec_def vec_mat_def col_def ncols_def dot_def smult_def)

section \<open>ADMM with \<open>lambda = 0\<close> against least squares\<close>

lemma admm_loop_Suc:
  "admm_loop (Suc n) W c rho lambda s = admm_update W c rho lambda (admm_loop n W c rho lambda s)"
  by (simp add: admm_loop_def)

lemma admm_loop_0: "admm_loop 0 W c rho lambda s = s"
  by (simp add: admm_loop_def)

lemma admm_example_update:
  assumes "0 \<le> m"
  shows "admm_update [[1 / 2, 0], [0, 1 / 2]] [2, 4] 1 0
           \<lparr>x_step = x, z_step = [m, m], u_step = [2 - m, 0]\<rparr> =
         \<lparr>x_step = [m, (4 + m) / 2], z_step = [(4 + m) / 2, (4 + m) / 2],
           u_step = [2 - (4 + m) / 2, 0]\<rparr>"
  using assms
  by (simp add: admm_update_def Let_def soft_threshold_def r_max_def vadd_def vsub_def
      smult_def mat_vec_def dot_def max_def field_simps)

lemma admm_example_loop:
  "admm_loop (Suc (Suc j)) [[1 / 2, 0], [0, 1 / 2]] [2, 4] 1 0 (admm_init 2) =
     \<lparr>x_step = [4 - 1 / 2 ^ j, 4 - 1 / 2 ^ Suc j],
       z_step = [4 - 1 / 2 ^ Suc j, 4 - 1 / 2 ^ Suc j],
       u_step = [2 - (4 - 1 / 2 ^ Suc j), 0]\<rparr>"
proof (induction j)
  case 0
  show ?case
    by (simp add: admm_loop_def admm_init_def admm_update_def Let_def soft_threshold_def
        r_max_def vadd_def vsub_def smult_def mat_vec_def dot_def numeral_2_eq_2)
next
  case (Suc j)
  have pos: "(0::real) \<le> 4 - 1 / 2 ^ Suc j"
  proof -
    have "(1::real) \<le> 2 ^ Suc j" by (rule one_le_power) simp
    then have "(1::real) / 2 ^ Suc j \<le> 1" by (simp del: power_Suc add: divide_le_eq_1)
    then show ?thesis by linarith
  qed
  have "(4 + (4 - 1 / 2 ^ Suc j)) / 2 = (4::real) - 1 / 2 ^ Suc (Suc j)"
    by (simp add: field_simps)
  then show ?case
    by (simp only: admm_loop_Suc [of "Suc (Suc j)"] Suc.IH admm_example_update [OF pos])
qed

lemma admm_example_setup:
  "mat_vec (transpose_mat [[1, 0], [0, 1], [0, 0]]) [2, 4, 1] = [2, 4] \<and>
   mat_add (mat_mul (transpose_mat [[1, 0], [0, 1], [0, 0]]) [[1, 0], [0, 1], [0, 0]])
     (mat_smult 1 (eye (ncols [[1, 0], [0, 1], [0, 0]]))) = [[2, 0], [0, 2]] \<and>
   inv_2x2 [[2, 0], [0, 2]] = Some [[1 / 2, 0], [0, 1 / 2]] \<and>
   ncols [[1, 0], [0, 1], [0 :: real, 0]] = 2"
  by (simp add: transpose_mat_def ncols_def col_def mat_vec_def dot_def
      mat_mul_def vec_mat_def mat_add_def mat_smult_def eye_def unit_vec_def vadd_def smult_def
      upt_rec numeral_2_eq_2)

text \<open>
  C1 (the code departs from the claim).  The design matrix with the columns
  \<open>(1, 0, 0)\<close> and \<open>(0, 1, 0)\<close> has full column rank; with \<open>y = (2, 4, 1)\<close> the
  least-squares coefficients are \<open>(2, 4)\<close>.  With \<open>lambda = 0\<close> and \<open>rho = 1\<close> the loop
  gives \<open>(4 - 1/2\<^sup>j, 4 - 1/2\<^sup>j\<^sup>+\<^sup>1)\<close> after \<open>j + 2\<close> rounds, in particular after the
  notebook's \<open>100\<close> rounds: it approaches \<open>(4, 4)\<close>, and its first coefficient stays
  at least \<open>3\<close>, away from \<open>2\<close>.  The cause is \<open>soft_threshold\<close>, which with threshold
  \<open>0\<close> is not the identity on vectors of more than one element.
\<close>

theorem admm_lasso_misses_ols:
  "(\<forall>j. admm_lasso inv_2x2 (j + 2) [[1, 0], [0, 1], [0, 0]] [2, 4, 1] 0 1 =
      Some [4 - 1 / 2 ^ j, 4 - 1 / 2 ^ Suc j]) \<and>
   admm_lasso inv_2x2 100 [[1, 0], [0, 1], [0, 0]] [2, 4, 1] 0 1 =
      Some [4 - 1 / 2 ^ 98, 4 - 1 / 2 ^ 99] \<and>
   normal_equations [[1, 0], [0, 1], [0, 0]] [2, 4, 1] [2, 4]"
proof -
  let ?X = "[[1, 0], [0, 1], [0 :: real, 0]]"
  let ?y = "[2, 4, 1 :: real]"
  have run: "admm_lasso inv_2x2 (Suc (Suc j)) ?X ?y 0 1 =
      Some [4 - 1 / 2 ^ j, 4 - 1 / 2 ^ Suc j]" for j
  proof -
    have s1: "mat_vec (transpose_mat ?X) ?y = [2, 4]"
      and s2: "mat_add (mat_mul (transpose_mat ?X) ?X) (mat_smult 1 (eye (ncols ?X))) =
          [[2, 0], [0, 2]]"
      and s3: "inv_2x2 [[2, 0], [0, 2]] = Some [[1 / 2, 0], [0, 1 / 2]]"
      and s4: "ncols ?X = 2"
      using admm_example_setup by blast+
    show ?thesis
      unfolding admm_lasso_def Let_def s1 s2 s3
      by (simp add: s4 admm_example_loop)
  qed
  have "admm_lasso inv_2x2 (Suc (Suc 98)) ?X ?y 0 1 =
      Some [4 - 1 / 2 ^ 98, 4 - 1 / 2 ^ Suc 98]"
    by (rule run)
  then have "admm_lasso inv_2x2 100 ?X ?y 0 1 = Some [4 - 1 / 2 ^ 98, 4 - 1 / 2 ^ 99]"
    by simp
  moreover have "normal_equations ?X ?y [2, 4]"
    by (simp add: normal_equations_def transpose_mat_def ncols_def
        col_def mat_vec_def dot_def upt_rec numeral_2_eq_2)
  ultimately show ?thesis
    using run by simp
qed

section \<open>The simulated data and the state of the random number generator\<close>

lemma rnorm_Suc_hd: "fst (rnorm draw (Suc p) g) ! 0 = fst (draw g)"
  by (simp split: prod.splits)

lemma length_rnorm: "length (fst (rnorm draw k g)) = k"
proof (induction k arbitrary: g)
  case 0
  show ?case by simp
next
  case (Suc k)
  obtain a g' where d: "draw g = (a, g')" by (cases "draw g")
  obtain as g'' where r: "rnorm draw k g' = (as, g'')" by (cases "rnorm draw k g'")
  have "length as = k" using Suc [of g'] r by simp
  then show ?case by (simp add: d r)
qed

lemma admm_simulate_beta: "fst (admm_simulate draw n p g) = 1 # fst (rnorm draw p g)"
  by (simp add: admm_simulate_def Let_def split: prod.splits)

text \<open>
  The notebooks that set a seed first do not depend on the state they were started
  with: the QR notebook's data is the same from every state.
\<close>

lemma qr_simulate_deterministic:
  "qr_simulate seed_state draw n P g1 = qr_simulate seed_state draw n P g2"
  by (simp add: qr_simulate_def)

text \<open>
  C8 (the code departs from the claim).  The ADMM notebook sets no seed.  Started from
  two generator states whose first draws differ, it simulates two different vectors
  \<open>beta\<close> (here \<open>p \<ge> 1\<close>; the notebook has \<open>p = 10\<close>).
\<close>

theorem admm_simulate_depends_on_state:
  assumes "fst (draw g1) \<noteq> fst (draw g2)"
  shows "fst (admm_simulate draw n (Suc p) g1) \<noteq> fst (admm_simulate draw n (Suc p) g2)"
proof
  assume "fst (admm_simulate draw n (Suc p) g1) = fst (admm_simulate draw n (Suc p) g2)"
  then have "fst (rnorm draw (Suc p) g1) ! 0 = fst (rnorm draw (Suc p) g2) ! 0"
    by (simp add: admm_simulate_beta)
  then show False
    using assms by (simp only: rnorm_Suc_hd)
qed

theorem admm_simulate_depends_on_state_witness:
  "fst ((\<lambda>g::nat. (real g, Suc g)) 0) \<noteq> fst ((\<lambda>g::nat. (real g, Suc g)) 1) \<and>
   fst (admm_simulate (\<lambda>g::nat. (real g, Suc g)) 1000 10 0) \<noteq>
   fst (admm_simulate (\<lambda>g::nat. (real g, Suc g)) 1000 10 1)"
  using admm_simulate_depends_on_state [of "\<lambda>g::nat. (real g, Suc g)" 0 1 1000 9]
  by simp

section \<open>Covariance updates of the Kalman filter\<close>

lemma symmetric_transpose:
  assumes "symmetric_mat d M" and "0 < d"
  shows "transpose_mat M = M"
proof (rule mat_eqI [where m = d and n = d])
  show "mat_dim d d (transpose_mat M)"
    using assms by (simp add: symmetric_mat_def mat_dim_transpose)
  show "mat_dim d d M" using assms by (simp add: symmetric_mat_def)
  fix i j assume ij: "i < d" "j < d"
  have "mat_dim d d M" using assms by (simp add: symmetric_mat_def)
  then have "transpose_mat M ! i ! j = M ! j ! i"
    using ij assms(2) by (simp add: nth_transpose_entry [where m = d and n = d])
  then show "transpose_mat M ! i ! j = M ! i ! j"
    using assms ij by (simp add: symmetric_mat_def)
qed

lemma dot_adjoint:
  assumes "mat_dim d d C" and "0 < d" and "length x = d" and "length y = d"
  shows "dot x (mat_vec C y) = dot (mat_vec (transpose_mat C) x) y"
proof -
  have "dot (mat_vec C y) x = dot y (mat_vec (transpose_mat C) x)"
    using assms by (intro dot_mat_vec_transpose [where m = d and n = d]) simp_all
  moreover have "length (mat_vec C y) = d" "length (mat_vec (transpose_mat C) x) = d"
    using assms by (simp_all add: mat_dimD(1) [of d d C] length_transpose [of d d C])
  ultimately show ?thesis
    using assms by (simp add: dot_commute)
qed

lemma symmetric_sym_form:
  assumes "symmetric_mat d M" and "0 < d"
  shows "sym_form d M"
  unfolding sym_form_def bilin_def
proof (intro allI impI)
  fix x y :: vec assume xy: "length x = d" "length y = d"
  have dM: "mat_dim d d M" using assms by (simp add: symmetric_mat_def)
  have "dot x (mat_vec M y) = dot (mat_vec M x) y"
    using dot_adjoint [OF dM assms(2) xy] symmetric_transpose [OF assms] by simp
  also have "\<dots> = dot y (mat_vec M x)"
    using xy dM by (simp add: dot_commute mat_dimD(1) [of d d M])
  finally show "dot x (mat_vec M y) = dot y (mat_vec M x)" .
qed

lemma sym_form_symmetric:
  assumes "mat_dim d d M" and "sym_form d M"
  shows "symmetric_mat d M"
  unfolding symmetric_mat_def
proof (intro conjI allI impI)
  show "mat_dim d d M" by fact
  fix i j assume ij: "i < d" "j < d"
  have "M ! i ! j = bilin M (unit_vec d i) (unit_vec d j)"
    using assms ij by (simp add: mat_entry_by_units bilin_def)
  also have "\<dots> = bilin M (unit_vec d j) (unit_vec d i)"
    using assms(2) by (simp add: sym_form_def)
  also have "\<dots> = M ! j ! i"
    using assms ij by (simp add: mat_entry_by_units bilin_def)
  finally show "M ! i ! j = M ! j ! i" .
qed

lemma bilin_add:
  assumes "mat_dim d d A" and "mat_dim d d B" and "length x = d" and "length y = d"
  shows "bilin (mat_add A B) x y = bilin A x y + bilin B x y"
  using assms
  by (simp add: bilin_def mat_vec_add [where m = d and n = d]
      dot_vadd_right [where n = d] mat_dimD(1) [of d d])

lemma bilin_congruence:
  assumes "mat_dim d d C" and "mat_dim d d M" and "0 < d" and "length x = d" and "length y = d"
  shows "bilin (mat_mul (mat_mul C M) (transpose_mat C)) x y =
         bilin M (mat_vec (transpose_mat C) x) (mat_vec (transpose_mat C) y)"
    and "bilin (mat_mul C (mat_mul M (transpose_mat C))) x y =
         bilin M (mat_vec (transpose_mat C) x) (mat_vec (transpose_mat C) y)"
proof -
  have dT: "mat_dim d d (transpose_mat C)" using assms by (simp add: mat_dim_transpose)
  have dCM: "mat_dim d d (mat_mul C M)" using assms by (simp add: mat_dim_mul [where p = d])
  have dMT: "mat_dim d d (mat_mul M (transpose_mat C))"
    using assms dT by (simp add: mat_dim_mul [where p = d])
  have l: "length (mat_vec (transpose_mat C) y) = d"
    using assms by (simp add: length_transpose [of d d C])
  have l2: "length (mat_vec M (mat_vec (transpose_mat C) y)) = d"
    using assms by (simp add: mat_dimD(1) [of d d M])
  have e1: "mat_vec (mat_mul (mat_mul C M) (transpose_mat C)) y =
         mat_vec C (mat_vec M (mat_vec (transpose_mat C) y))"
    using assms dT dCM l by (simp add: mat_vec_mul [where m = d and p = d and n = d])
  have e2: "mat_vec (mat_mul C (mat_mul M (transpose_mat C))) y =
         mat_vec C (mat_vec M (mat_vec (transpose_mat C) y))"
    using assms dT dMT l by (simp add: mat_vec_mul [where m = d and p = d and n = d])
  have "dot x (mat_vec C (mat_vec M (mat_vec (transpose_mat C) y))) =
      dot (mat_vec (transpose_mat C) x) (mat_vec M (mat_vec (transpose_mat C) y))"
    using assms l2 by (simp add: dot_adjoint [where d = d])
  then show "bilin (mat_mul (mat_mul C M) (transpose_mat C)) x y =
         bilin M (mat_vec (transpose_mat C) x) (mat_vec (transpose_mat C) y)"
    and "bilin (mat_mul C (mat_mul M (transpose_mat C))) x y =
         bilin M (mat_vec (transpose_mat C) x) (mat_vec (transpose_mat C) y)"
    by (simp_all add: bilin_def e1 e2)
qed

lemma mat_dim_congruence:
  assumes "mat_dim d d C" and "mat_dim d d M" and "0 < d"
  shows "mat_dim d d (mat_mul (mat_mul C M) (transpose_mat C))"
    and "mat_dim d d (mat_mul C (mat_mul M (transpose_mat C)))"
  using assms
  by (simp_all add: mat_dim_mul [where p = d] mat_dim_transpose)

lemma prior_covariance_form:
  assumes "0 < d" and "mat_dim d d cov_m" and "mat_dim d d cov_v"
    and "mat_dim d d A" and "mat_dim d d L" and "length x = d" and "length y = d"
  shows "bilin (mat_add (mat_mul (mat_mul A cov_m) (transpose_mat A))
       (mat_mul (mat_mul L cov_v) (transpose_mat L))) x y =
     bilin cov_m (mat_vec (transpose_mat A) x) (mat_vec (transpose_mat A) y) +
     bilin cov_v (mat_vec (transpose_mat L) x) (mat_vec (transpose_mat L) y)"
  using assms
  by (simp add: bilin_add [where d = d] mat_dim_congruence bilin_congruence)

lemma prior_covariance_symmetric_psd:
  assumes "0 < d"
    and "symmetric_mat d cov_m" and "psd d cov_m"
    and "symmetric_mat d cov_v" and "psd d cov_v"
    and "mat_dim d d A" and "mat_dim d d L"
  shows "symmetric_mat d (mat_add (mat_mul (mat_mul A cov_m) (transpose_mat A))
       (mat_mul (mat_mul L cov_v) (transpose_mat L)))"
    and "psd d (mat_add (mat_mul (mat_mul A cov_m) (transpose_mat A))
       (mat_mul (mat_mul L cov_v) (transpose_mat L)))"
proof -
  let ?N = "mat_add (mat_mul (mat_mul A cov_m) (transpose_mat A))
       (mat_mul (mat_mul L cov_v) (transpose_mat L))"
  have dm: "mat_dim d d cov_m" and dv: "mat_dim d d cov_v"
    using assms by (simp_all add: symmetric_mat_def)
  have sm: "sym_form d cov_m" and sv: "sym_form d cov_v"
    using assms by (simp_all add: symmetric_sym_form)
  have lA: "length (mat_vec (transpose_mat A) x) = d"
    and lL: "length (mat_vec (transpose_mat L) x) = d" for x
    using assms by (simp_all add: length_transpose [of d d])
  have dN: "mat_dim d d ?N"
    using assms dm dv
    by (simp add: mat_dim_add mat_dim_congruence)
  have "sym_form d ?N"
    unfolding sym_form_def
  proof (intro allI impI)
    fix x y :: vec assume xy: "length x = d" "length y = d"
    show "bilin ?N x y = bilin ?N y x"
      using sm sv lA lL
      by (simp add: prior_covariance_form [OF assms(1) dm dv assms(6,7)] xy sym_form_def)
  qed
  then show "symmetric_mat d ?N"
    using dN by (rule sym_form_symmetric [rotated])
  show "psd d ?N"
    unfolding psd_def
  proof (intro allI impI)
    fix x :: vec assume x: "length x = d"
    have "0 \<le> bilin cov_m (mat_vec (transpose_mat A) x) (mat_vec (transpose_mat A) x)"
      using assms(3) lA by (simp add: psd_def bilin_def)
    moreover have "0 \<le> bilin cov_v (mat_vec (transpose_mat L) x) (mat_vec (transpose_mat L) x)"
      using assms(5) lL by (simp add: psd_def bilin_def)
    ultimately have "0 \<le> bilin ?N x x"
      by (simp add: prior_covariance_form [OF assms(1) dm dv assms(6,7)] x)
    then show "0 \<le> dot x (mat_vec ?N x)" by (simp add: bilin_def)
  qed
qed

lemma posterior_covariance_form:
  assumes "0 < d" and "mat_dim d d P" and "sym_form d P" and "mat_dim d d B"
    and "mat_dim d d W" and "length x = d" and "length y = d"
  shows "bilin (mat_mul (mat_sub (eye d) (mat_mul (mat_mul (mat_mul P (transpose_mat B)) W) B)) P)
       x y =
     bilin P x y - bilin W (mat_vec B (mat_vec P x)) (mat_vec B (mat_vec P y))"
proof -
  let ?K = "mat_mul (mat_mul P (transpose_mat B)) W"
  have dT: "mat_dim d d (transpose_mat B)" using assms by (simp add: mat_dim_transpose)
  have dPB: "mat_dim d d (mat_mul P (transpose_mat B))"
    using assms dT by (simp add: mat_dim_mul [where p = d])
  have dK: "mat_dim d d ?K" using assms dPB by (simp add: mat_dim_mul [where p = d])
  have dKB: "mat_dim d d (mat_mul ?K B)" using assms dK by (simp add: mat_dim_mul [where p = d])
  have dI: "mat_dim d d (mat_sub (eye d) (mat_mul ?K B))"
    using dKB by (simp add: mat_dim_sub)
  have len: "length P = d" "length B = d" "length W = d" "length (transpose_mat B) = d"
    using assms by (simp_all add: mat_dimD(1) [of d d] length_transpose [of d d B])
  define wy where "wy = mat_vec W (mat_vec B (mat_vec P y))"
  define t where "t = mat_vec (transpose_mat B) wy"
  have lwy: "length wy = d" and lt: "length t = d" by (simp_all add: wy_def t_def len)
  have Kz: "mat_vec ?K (mat_vec B (mat_vec P y)) = mat_vec P t"
    using assms dT dPB len
    by (simp add: mat_vec_mul [where m = d and p = d and n = d] t_def wy_def)
  have "mat_vec (mat_mul (mat_sub (eye d) (mat_mul ?K B)) P) y =
      mat_vec (mat_sub (eye d) (mat_mul ?K B)) (mat_vec P y)"
    using assms dI len
    by (simp add: mat_vec_mul [where m = d and p = d and n = d])
  also have "\<dots> = vsub (mat_vec P y) (mat_vec (mat_mul ?K B) (mat_vec P y))"
    using dKB len by (simp add: mat_vec_sub [where m = d and n = d] mat_vec_eye)
  also have "\<dots> = vsub (mat_vec P y) (mat_vec P t)"
    using assms dK len by (simp add: mat_vec_mul [where m = d and p = d and n = d] Kz)
  finally have My: "mat_vec (mat_mul (mat_sub (eye d) (mat_mul ?K B)) P) y =
      vsub (mat_vec P y) (mat_vec P t)" .
  have "dot x (mat_vec P t) = bilin P t x"
    using assms lt by (simp add: sym_form_def bilin_def [symmetric])
  also have "\<dots> = dot (mat_vec P x) t"
    using lt len by (simp add: bilin_def dot_commute)
  also have "\<dots> = dot (mat_vec (transpose_mat B) wy) (mat_vec P x)"
    using lt len by (simp add: t_def dot_commute)
  also have "\<dots> = dot wy (mat_vec B (mat_vec P x))"
    using assms lwy len by (simp add: dot_adjoint [where d = d])
  also have "\<dots> = bilin W (mat_vec B (mat_vec P x)) (mat_vec B (mat_vec P y))"
    using lwy len by (simp add: bilin_def wy_def dot_commute)
  finally have "dot x (mat_vec P t) =
      bilin W (mat_vec B (mat_vec P x)) (mat_vec B (mat_vec P y))" .
  then show ?thesis
    using assms len by (simp add: bilin_def My dot_vsub_right [where n = d])
qed

lemma inverse_sym_form:
  assumes "0 < d" and "mat_dim d d S" and "sym_form d S" and "is_inverse d S W"
  shows "sym_form d W"
  unfolding sym_form_def
proof (intro allI impI)
  fix a b :: vec assume ab: "length a = d" "length b = d"
  have dW: "mat_dim d d W" and SW: "mat_mul S W = eye d"
    using assms by (simp_all add: is_inverse_def)
  have len: "length W = d" "length S = d"
    using dW assms(2) by (simp_all add: mat_dimD(1) [of d d])
  have undo: "mat_vec S (mat_vec W z) = z" if "length z = d" for z
    using mat_vec_mul [OF assms(2) dW assms(1) that] that by (simp add: SW mat_vec_eye)
  have "bilin W a b = dot (mat_vec S (mat_vec W a)) (mat_vec W b)"
    using ab by (simp add: bilin_def undo)
  also have "\<dots> = bilin S (mat_vec W b) (mat_vec W a)"
    using len by (simp add: bilin_def dot_commute)
  also have "\<dots> = bilin S (mat_vec W a) (mat_vec W b)"
    using assms(3) len by (simp add: sym_form_def)
  also have "\<dots> = dot (mat_vec W a) b"
    using ab by (simp add: bilin_def undo)
  also have "\<dots> = bilin W b a"
    using ab len by (simp add: bilin_def dot_commute)
  finally show "bilin W a b = bilin W b a" .
qed

lemma bilin_vsub:
  assumes "mat_dim d d P" and "length x = d" and "length v = d"
  shows "bilin P (vsub x v) (vsub x v) =
     bilin P x x - bilin P x v - bilin P v x + bilin P v v"
proof -
  have len: "length P = d" using assms by (simp add: mat_dimD(1) [of d d P])
  show ?thesis
    using assms len
    by (simp add: bilin_def mat_vec_vsub [where m = d and n = d] dot_vsub_left [where n = d]
        dot_vsub_right [where n = d])
qed

lemma posterior_covariance_symmetric_psd:
  assumes "0 < d" and "inverse_routine la_inv"
    and "symmetric_mat d cov_p" and "psd d cov_p"
    and "symmetric_mat d cov_w" and "psd d cov_w"
    and "mat_dim d d B" and "mat_dim d d J"
    and W: "la_inv (mat_add (mat_mul B (mat_mul cov_p (transpose_mat B)))
         (mat_mul J (mat_mul cov_w (transpose_mat J)))) = Some W"
    and K: "K = mat_mul (mat_mul cov_p (transpose_mat B)) W"
  shows "symmetric_mat d (mat_mul (mat_sub (eye (length K)) (mat_mul K B)) cov_p)"
    and "psd d (mat_mul (mat_sub (eye (length K)) (mat_mul K B)) cov_p)"
proof -
  let ?BPB = "mat_mul B (mat_mul cov_p (transpose_mat B))"
  let ?JWJ = "mat_mul J (mat_mul cov_w (transpose_mat J))"
  let ?S = "mat_add ?BPB ?JWJ"
  let ?M = "mat_mul (mat_sub (eye d) (mat_mul K B)) cov_p"
  have dP: "mat_dim d d cov_p" and dWc: "mat_dim d d cov_w"
    using assms by (simp_all add: symmetric_mat_def)
  have sP: "sym_form d cov_p" and sWc: "sym_form d cov_w"
    using assms by (simp_all add: symmetric_sym_form)
  have lK: "length K = d"
    using assms(3) by (simp add: K symmetric_mat_def mat_dimD(1) [of d d cov_p])
  have dBPB: "mat_dim d d ?BPB" and dJWJ: "mat_dim d d ?JWJ"
    using assms dP dWc by (simp_all add: mat_dim_congruence)
  then have dS: "mat_dim d d ?S" by (simp add: mat_dim_add)
  then have "length ?S = d" by (simp add: mat_dimD(1) [of d d])
  then have inv: "is_inverse d ?S W"
    using assms(2) W unfolding inverse_routine_def by blast
  then have dW: "mat_dim d d W" and SW: "mat_mul ?S W = eye d"
    by (simp_all add: is_inverse_def)
  have len: "length cov_p = d" "length B = d" "length W = d" "length J = d"
    "length (transpose_mat B) = d" "length (transpose_mat J) = d" "length cov_w = d"
    using assms dP dW dWc
    by (simp_all add: mat_dimD(1) [of d d] length_transpose [of d d])
  have formS: "bilin ?S x y =
      bilin cov_p (mat_vec (transpose_mat B) x) (mat_vec (transpose_mat B) y) +
      bilin cov_w (mat_vec (transpose_mat J) x) (mat_vec (transpose_mat J) y)"
    if "length x = d" "length y = d" for x y
    using that assms dP dWc dBPB dJWJ
    by (simp add: bilin_add [where d = d] bilin_congruence)
  have sS: "sym_form d ?S"
    unfolding sym_form_def
  proof (intro allI impI)
    fix x y :: vec assume "length x = d" "length y = d"
    then show "bilin ?S x y = bilin ?S y x"
      using sP sWc len by (simp add: formS sym_form_def)
  qed
  have sW: "sym_form d W"
    using assms(1) dS sS inv by (rule inverse_sym_form)
  have formM: "bilin ?M x y =
      bilin cov_p x y - bilin W (mat_vec B (mat_vec cov_p x)) (mat_vec B (mat_vec cov_p y))"
    if "length x = d" "length y = d" for x y
    unfolding K
    using assms(1) dP sP assms(7) dW that by (rule posterior_covariance_form)
  have dM: "mat_dim d d ?M"
  proof -
    have "mat_dim d d K"
      using assms dP dW by (simp add: K mat_dim_mul [where p = d] mat_dim_transpose)
    then have "mat_dim d d (mat_sub (eye d) (mat_mul K B))"
      using assms(1,7) by (simp add: mat_dim_sub mat_dim_mul [where p = d] mat_dim_eye)
    then show ?thesis
      using dP assms(1) by (simp add: lK mat_dim_mul [where p = d])
  qed
  have "sym_form d ?M"
    unfolding sym_form_def
  proof (intro allI impI)
    fix x y :: vec assume "length x = d" "length y = d"
    then show "bilin ?M x y = bilin ?M y x"
      using sP sW len by (simp add: formM sym_form_def)
  qed
  then show "symmetric_mat d (mat_mul (mat_sub (eye (length K)) (mat_mul K B)) cov_p)"
    unfolding lK using dM by (rule sym_form_symmetric [rotated])
  show "psd d (mat_mul (mat_sub (eye (length K)) (mat_mul K B)) cov_p)"
    unfolding psd_def lK
  proof (intro allI impI)
    fix x :: vec assume x: "length x = d"
    define c where "c = mat_vec B (mat_vec cov_p x)"
    define w where "w = mat_vec W c"
    define v where "v = mat_vec (transpose_mat B) w"
    define u where "u = mat_vec (transpose_mat J) w"
    have l: "length c = d" "length w = d" "length v = d" "length u = d"
      by (simp_all add: c_def w_def v_def u_def len)
    have Sw: "mat_vec ?S w = c"
      using mat_vec_mul [OF dS dW assms(1) l(1)] l by (simp add: SW mat_vec_eye w_def)
    have cw: "dot c w = bilin cov_p v v + bilin cov_w u u"
    proof -
      have "dot c w = bilin ?S w w"
        using l dS by (simp add: bilin_def Sw dot_commute)
      then show ?thesis by (simp add: formS l v_def u_def)
    qed
    have xv: "bilin cov_p v x = dot c w"
    proof -
      have "bilin cov_p v x = dot (mat_vec (transpose_mat B) w) (mat_vec cov_p x)"
        by (simp add: bilin_def v_def)
      also have "\<dots> = dot w (mat_vec B (mat_vec cov_p x))"
        using assms l len by (simp add: dot_adjoint [where d = d])
      finally show ?thesis using l by (simp add: c_def [symmetric] dot_commute)
    qed
    have vx: "bilin cov_p x v = dot c w"
      using sP x l xv by (simp add: sym_form_def)
    have "bilin ?M x x = bilin cov_p x x - dot c w"
      using x by (simp add: formM c_def [symmetric] bilin_def [of W] w_def [symmetric])
    also have "\<dots> = bilin cov_p (vsub x v) (vsub x v) + bilin cov_w u u"
      using bilin_vsub [OF dP x l(3)] by (simp add: xv vx cw)
    finally have "bilin ?M x x = bilin cov_p (vsub x v) (vsub x v) + bilin cov_w u u" .
    moreover have "0 \<le> bilin cov_p (vsub x v) (vsub x v)"
      using assms(4) x l by (simp add: psd_def bilin_def)
    moreover have "0 \<le> bilin cov_w u u"
      using assms(6) l by (simp add: psd_def bilin_def)
    ultimately show "0 \<le> dot x (mat_vec ?M x)"
      by (simp add: bilin_def)
  qed
qed

lemma inverse_routine_inv_2x2: "inverse_routine inv_2x2"
  unfolding inverse_routine_def
proof (intro allI impI)
  fix M W assume "inv_2x2 M = Some W"
  then obtain a b c e where M: "M = [[a, b], [c, e]]" and det: "a * e - b * c \<noteq> 0"
    and W: "W = [[e / (a * e - b * c), - b / (a * e - b * c)],
                 [- c / (a * e - b * c), a / (a * e - b * c)]]"
    by (induction M rule: inv_2x2.induct) (auto split: if_splits)
  have k: "x / (a * e - b * c) - y / (a * e - b * c) = 1" if "x - y = a * e - b * c" for x y
    using det that by (simp add: diff_divide_distrib [symmetric])
  have k1: "a * e / (a * e - b * c) - b * c / (a * e - b * c) = 1"
    by (rule k) simp
  have k2: "e * a / (a * e - b * c) - c * b / (a * e - b * c) = 1"
    by (rule k) (simp add: mult.commute)
  have k3: "e * a / (a * e - b * c) - b * c / (a * e - b * c) = 1"
    by (rule k) (simp add: mult.commute)
  have k4: "a * e / (a * e - b * c) - c * b / (a * e - b * c) = 1"
    by (rule k) (simp add: mult.commute)
  have "mat_mul M W = eye 2"
    by (simp add: M W mat_mul_def vec_mat_def ncols_def col_def dot_def eye_def unit_vec_def
        upt_rec numeral_2_eq_2 k1 k2 k3 k4)
  moreover have "mat_mul W M = eye 2"
    by (simp add: M W mat_mul_def vec_mat_def ncols_def col_def dot_def eye_def unit_vec_def
        upt_rec numeral_2_eq_2 k1 k2 k3 k4)
  moreover have "mat_dim 2 2 W" by (simp add: W mat_dim_def)
  ultimately have "is_inverse 2 M W"
    by (simp add: is_inverse_def)
  moreover have "length M = 2" by (simp add: M)
  ultimately show "is_inverse (length M) M W" by simp
qed

lemma psd_diag_2: "0 \<le> p \<Longrightarrow> 0 \<le> q \<Longrightarrow> psd 2 [[p, 0], [0, q]]"
  unfolding psd_def
proof (intro allI impI)
  fix x :: vec assume pq: "0 \<le> p" "0 \<le> q" and "length x = 2"
  then obtain a b where x: "x = [a, b]"
    by (cases x; cases "tl x") (auto simp: numeral_2_eq_2)
  have "0 \<le> p * (a * a)" "0 \<le> q * (b * b)" using pq by simp_all
  then have "0 \<le> a * (p * a) + b * (q * b)"
    by (simp add: mult.left_commute)
  then show "0 \<le> dot x (mat_vec [[p, 0], [0, q]] x)"
    by (simp add: x mat_vec_def dot_def)
qed

lemma symmetric_diag_2: "symmetric_mat 2 [[p, 0], [0, q]]"
  by (auto simp: symmetric_mat_def mat_dim_def numeral_2_eq_2 less_Suc_eq)

subsection \<open>Arrays of doubles and of 64-bit integers\<close>

lemma np_matmul_float_left [simp]:
  "np_matmul (Float64 A) b = Float64 (mat_mul A (as_float64 b))"
  by (cases b) simp_all

lemma np_matmul_float_right [simp]:
  "np_matmul a (Float64 B) = Float64 (mat_mul (as_float64 a) B)"
  by (cases a) simp_all

lemma np_add_float_left [simp]: "np_add (Float64 A) b = Float64 (mat_add A (as_float64 b))"
  by (cases b) simp_all

lemma np_subtract_float_right [simp]:
  "np_subtract a (Float64 B) = Float64 (mat_sub (as_float64 a) B)"
  by (cases a) simp_all

lemma transpose_mat_map:
  assumes "\<forall>r\<in>set M. length r = n"
  shows "transpose_mat (map (map f) M) = map (map f) (transpose_mat M)"
proof (cases M)
  case Nil
  then show ?thesis by (simp add: transpose_mat_def ncols_def)
next
  case (Cons r rs)
  then have n: "ncols M = n" "ncols (map (map f) M) = n"
    using assms by (simp_all add: ncols_def)
  show ?thesis
    unfolding transpose_mat_def n using assms by (auto simp: col_def)
qed

lemma as_float64_np_T:
  assumes "mat_dim m n (as_float64 a)"
  shows "as_float64 (np_T a) = transpose_mat (as_float64 a)"
proof (cases a)
  case (Int64 M)
  then have "\<forall>r\<in>set M. length r = n" using assms by (simp add: mat_dim_def)
  then have "transpose_mat (map (map (\<lambda>a. real_of_int (sint a))) M) =
      map (map (\<lambda>a. real_of_int (sint a))) (transpose_mat M)"
    by (rule transpose_mat_map)
  then show ?thesis using Int64 by simp
next
  case (Float64 M)
  then show ?thesis by simp
qed

lemma as_float64_np_diag_ones: "as_float64 (np_diag_ones n) = eye n"
  by (simp add: np_diag_ones_def eye_def unit_vec_def if_distrib [of "\<lambda>a. real_of_int (sint a)"]
      cong: if_cong)

lemma update_prior_covariance_float64:
  "update_prior_covariance cov_m cov_v (Float64 A) (Float64 L) =
     Float64 (mat_add (mat_mul (mat_mul A (as_float64 cov_m)) (transpose_mat A))
       (mat_mul (mat_mul L (as_float64 cov_v)) (transpose_mat L)))"
  by (simp add: update_prior_covariance_def Let_def)

lemma k_k_float64:
  assumes "mat_dim d d (as_float64 J)"
  shows "k_k la_inv (Float64 cov_p) (Float64 cov_w) (Float64 B) J =
     (case la_inv (mat_add (mat_mul B (mat_mul cov_p (transpose_mat B)))
         (mat_mul (as_float64 J) (mat_mul cov_w (transpose_mat (as_float64 J))))) of
        None \<Rightarrow> None
      | Some W \<Rightarrow> Some (Float64 (mat_mul (mat_mul cov_p (transpose_mat B)) W)))"
  by (simp add: k_k_def Let_def as_float64_np_T [OF assms] split: option.splits)

lemma update_posterior_covariance_float64:
  "update_posterior_covariance (Float64 K) (Float64 B) (Float64 cov_p) =
     Float64 (mat_mul (mat_sub (eye (length K)) (mat_mul K B)) cov_p)"
  by (simp add: update_posterior_covariance_def Let_def as_float64_np_diag_ones)

lemma not_psd_diag_2: "p < 0 \<Longrightarrow> \<not> psd 2 [[p, 0], [0, q]]"
  unfolding psd_def
  by (rule notI, erule allE [where x = "[1, 0]"]) (simp add: mat_vec_def dot_def)

text \<open>
  C7 (amended).  For matrices of size \<open>d > 0\<close> and in exact arithmetic on doubles.
  Where \<open>A\<close> and \<open>L\<close> hold doubles (as \<^verbatim>\<open>a_k\<close> and \<^verbatim>\<open>l_k\<close> return them), the prior
  covariance update of symmetric positive semi-definite \<open>cov_m\<close> and \<open>cov_v\<close>, of doubles
  or of integers, holds doubles and is symmetric positive semi-definite, for all square
  \<open>A\<close> and \<open>L\<close> (diagonal or not).  Where \<open>cov_p\<close>, \<open>cov_w\<close> and \<open>B\<close> hold doubles, \<open>J\<close> holds
  doubles or integers, and the gain \<open>K\<close> is the one that \<open>k_k\<close> computes from a symmetric
  positive semi-definite \<open>cov_p\<close> (and \<open>cov_w\<close>), the posterior covariance update holds
  doubles and is symmetric positive semi-definite.
\<close>

theorem covariance_updates_symmetric_psd:
  assumes "0 < d"
  shows "(symmetric_mat d (as_float64 cov_m) \<and> psd d (as_float64 cov_m) \<and>
          symmetric_mat d (as_float64 cov_v) \<and> psd d (as_float64 cov_v) \<and>
          mat_dim d d A \<and> mat_dim d d L \<longrightarrow>
            (\<exists>N. update_prior_covariance cov_m cov_v (Float64 A) (Float64 L) = Float64 N \<and>
               symmetric_mat d N \<and> psd d N)) \<and>
         (inverse_routine la_inv \<and> symmetric_mat d cov_p \<and> psd d cov_p \<and>
          symmetric_mat d cov_w \<and> psd d cov_w \<and> mat_dim d d B \<and> mat_dim d d (as_float64 J) \<and>
          k_k la_inv (Float64 cov_p) (Float64 cov_w) (Float64 B) J = Some K \<longrightarrow>
            (\<exists>M. update_posterior_covariance K (Float64 B) (Float64 cov_p) = Float64 M \<and>
               symmetric_mat d M \<and> psd d M))"
proof (intro conjI impI)
  assume h: "symmetric_mat d (as_float64 cov_m) \<and> psd d (as_float64 cov_m) \<and>
          symmetric_mat d (as_float64 cov_v) \<and> psd d (as_float64 cov_v) \<and>
          mat_dim d d A \<and> mat_dim d d L"
  show "\<exists>N. update_prior_covariance cov_m cov_v (Float64 A) (Float64 L) = Float64 N \<and>
               symmetric_mat d N \<and> psd d N"
    using prior_covariance_symmetric_psd [of d "as_float64 cov_m" "as_float64 cov_v" A L]
      assms h
    by (simp add: update_prior_covariance_float64)
next
  assume h: "inverse_routine la_inv \<and> symmetric_mat d cov_p \<and> psd d cov_p \<and>
          symmetric_mat d cov_w \<and> psd d cov_w \<and> mat_dim d d B \<and> mat_dim d d (as_float64 J) \<and>
          k_k la_inv (Float64 cov_p) (Float64 cov_w) (Float64 B) J = Some K"
  then have dJ: "mat_dim d d (as_float64 J)" by simp
  obtain W where W: "la_inv (mat_add (mat_mul B (mat_mul cov_p (transpose_mat B)))
         (mat_mul (as_float64 J) (mat_mul cov_w (transpose_mat (as_float64 J))))) = Some W"
    and K: "K = Float64 (mat_mul (mat_mul cov_p (transpose_mat B)) W)"
    using h by (auto simp: k_k_float64 [OF dJ] split: option.splits)
  have "symmetric_mat d (mat_mul (mat_sub (eye (length (mat_mul (mat_mul cov_p (transpose_mat B)) W)))
           (mat_mul (mat_mul (mat_mul cov_p (transpose_mat B)) W) B)) cov_p) \<and>
        psd d (mat_mul (mat_sub (eye (length (mat_mul (mat_mul cov_p (transpose_mat B)) W)))
           (mat_mul (mat_mul (mat_mul cov_p (transpose_mat B)) W) B)) cov_p)"
    using posterior_covariance_symmetric_psd [where d = d and la_inv = la_inv
        and cov_p = cov_p and cov_w = cov_w and B = B and J = "as_float64 J" and W = W
        and K = "mat_mul (mat_mul cov_p (transpose_mat B)) W"] assms h W
    by blast
  then show "\<exists>M. update_posterior_covariance K (Float64 B) (Float64 cov_p) = Float64 M \<and>
               symmetric_mat d M \<and> psd d M"
    unfolding K update_posterior_covariance_float64 by blast
qed

theorem covariance_updates_symmetric_psd_witness:
  "0 < (2::nat) \<and>
   symmetric_mat 2 (as_float64 (Int64 [[0, 0], [0, 0]])) \<and>
   psd 2 (as_float64 (Int64 [[0, 0], [0, 0]])) \<and>
   symmetric_mat 2 (as_float64 (Float64 [[1 / 4, 0], [0, 1 / 4]])) \<and>
   psd 2 (as_float64 (Float64 [[1 / 4, 0], [0, 1 / 4]])) \<and>
   mat_dim 2 2 [[5, 0], [0, 3]] \<and>
   update_prior_covariance (Int64 [[0, 0], [0, 0]]) (Float64 [[1 / 4, 0], [0, 1 / 4]])
     (Float64 [[5, 0], [0, 3]]) (Float64 [[5, 0], [0, 3]]) = Float64 [[25 / 4, 0], [0, 9 / 4]] \<and>
   symmetric_mat 2 [[25 / 4, 0], [0, 9 / 4]] \<and> psd 2 [[25 / 4, 0], [0, 9 / 4]] \<and>
   inverse_routine inv_2x2 \<and>
   symmetric_mat 2 [[1 / 4, 0], [0, 1 / 4]] \<and> psd 2 [[1 / 4, 0], [0, 1 / 4]] \<and>
   mat_dim 2 2 [[- 3, 0], [0, - 1]] \<and> mat_dim 2 2 (as_float64 (Int64 [[1, 0], [0, 1]])) \<and>
   k_k inv_2x2 (Float64 [[25 / 4, 0], [0, 9 / 4]]) (Float64 [[1 / 4, 0], [0, 1 / 4]])
     (Float64 [[- 3, 0], [0, - 1]]) (Int64 [[1, 0], [0, 1]]) =
     Some (Float64 [[- 75 / 226, 0], [0, - 9 / 10]]) \<and>
   update_posterior_covariance (Float64 [[- 75 / 226, 0], [0, - 9 / 10]])
     (Float64 [[- 3, 0], [0, - 1]]) (Float64 [[25 / 4, 0], [0, 9 / 4]]) =
     Float64 [[25 / 904, 0], [0, 9 / 40]] \<and>
   symmetric_mat 2 [[25 / 904, 0], [0, 9 / 40]] \<and> psd 2 [[25 / 904, 0], [0, 9 / 40]]"
proof -
  have h0: "0 < (2::nat)" by simp
  have z: "as_float64 (Int64 [[0, 0], [0, 0]]) = [[0, 0], [0, 0]]"
    "as_float64 (Int64 [[1, 0], [0, 1]]) = [[1, 0], [0, 1]]"
    by simp_all
  have s: "symmetric_mat 2 [[0, 0], [0, 0]]" "symmetric_mat 2 [[1 / 4, 0], [0, 1 / 4]]"
    "symmetric_mat 2 [[25 / 4, 0], [0, 9 / 4]]"
    by (rule symmetric_diag_2)+
  have p: "psd 2 [[0, 0], [0, 0]]" "psd 2 [[1 / 4, 0], [0, 1 / 4]]"
    "psd 2 [[25 / 4, 0], [0, 9 / 4]]"
    by (rule psd_diag_2; simp)+
  have d: "mat_dim 2 2 [[5, 0], [0, 3]]" "mat_dim 2 2 [[- 3, 0], [0, - 1]]"
    "mat_dim 2 2 [[1, 0], [0, 1]]"
    by (simp_all add: mat_dim_def)
  have pr: "update_prior_covariance (Int64 [[0, 0], [0, 0]]) (Float64 [[1 / 4, 0], [0, 1 / 4]])
     (Float64 [[5, 0], [0, 3]]) (Float64 [[5, 0], [0, 3]]) = Float64 [[25 / 4, 0], [0, 9 / 4]]"
    by (simp add: update_prior_covariance_def Let_def mat_mul_def vec_mat_def transpose_mat_def
        ncols_def col_def dot_def mat_add_def vadd_def upt_rec numeral_2_eq_2)
  have k: "k_k inv_2x2 (Float64 [[25 / 4, 0], [0, 9 / 4]]) (Float64 [[1 / 4, 0], [0, 1 / 4]])
     (Float64 [[- 3, 0], [0, - 1]]) (Int64 [[1, 0], [0, 1]]) =
     Some (Float64 [[- 75 / 226, 0], [0, - 9 / 10]])"
    by (simp add: k_k_def Let_def mat_mul_def vec_mat_def transpose_mat_def
        ncols_def col_def dot_def mat_add_def vadd_def upt_rec numeral_2_eq_2)
  have po: "update_posterior_covariance (Float64 [[- 75 / 226, 0], [0, - 9 / 10]])
     (Float64 [[- 3, 0], [0, - 1]]) (Float64 [[25 / 4, 0], [0, 9 / 4]]) =
     Float64 [[25 / 904, 0], [0, 9 / 40]]"
    by (simp add: update_posterior_covariance_def Let_def np_diag_ones_def mat_mul_def
        vec_mat_def ncols_def col_def dot_def mat_sub_def vsub_def upt_rec numeral_2_eq_2)
  from covariance_updates_symmetric_psd [OF h0, of "Int64 [[0, 0], [0, 0]]"
      "Float64 [[1 / 4, 0], [0, 1 / 4]]" "[[5, 0], [0, 3]]" "[[5, 0], [0, 3]]" inv_2x2
      "[[25 / 4, 0], [0, 9 / 4]]" "[[1 / 4, 0], [0, 1 / 4]]" "[[- 3, 0], [0, - 1]]"
      "Int64 [[1, 0], [0, 1]]" "Float64 [[- 75 / 226, 0], [0, - 9 / 10]]"]
  show ?thesis
    using h0 s p d k inverse_routine_inv_2x2
    by (simp only: pr po z as_float64.simps ndarray.inject simp_thms ex_simps) simp
qed

text \<open>
  The claim as it stands fails on arrays of integers: \<^verbatim>\<open>np.matmul\<close> wraps around.
  \<open>cov_m\<close> is the identity and \<open>cov_v\<close> is zero, both symmetric positive semi-definite,
  \<open>A = diag(3037000500, 1)\<close> and \<open>L\<close> is the identity, both diagonal.  The first
  entry of the result is \<open>3037000500\<^sup>2 - 2\<^sup>6\<^sup>4\<close>, a negative number.
\<close>

theorem update_prior_covariance_int64_wraps:
  "symmetric_mat 2 (as_float64 (Int64 [[1, 0], [0, 1]])) \<and>
   psd 2 (as_float64 (Int64 [[1, 0], [0, 1]])) \<and>
   symmetric_mat 2 (as_float64 (Int64 [[0, 0], [0, 0]])) \<and>
   psd 2 (as_float64 (Int64 [[0, 0], [0, 0]])) \<and>
   mat_dim 2 2 (as_float64 (Int64 [[3037000500, 0], [0, 1]])) \<and>
   update_prior_covariance (Int64 [[1, 0], [0, 1]]) (Int64 [[0, 0], [0, 0]])
     (Int64 [[3037000500, 0], [0, 1]]) (Int64 [[1, 0], [0, 1]]) =
     Int64 [[9223372037000250000, 0], [0, 1]] \<and>
   as_float64 (Int64 [[9223372037000250000, 0], [0, 1]]) =
     [[- 9223372036709301616, 0], [0, 1]] \<and>
   \<not> psd 2 (as_float64 (update_prior_covariance (Int64 [[1, 0], [0, 1]]) (Int64 [[0, 0], [0, 0]])
     (Int64 [[3037000500, 0], [0, 1]]) (Int64 [[1, 0], [0, 1]])))"
proof -
  have z: "as_float64 (Int64 [[1, 0], [0, 1]]) = [[1, 0], [0, 1]]"
    "as_float64 (Int64 [[0, 0], [0, 0]]) = [[0, 0], [0, 0]]"
    "as_float64 (Int64 [[9223372037000250000, 0], [0, 1]]) =
       [[- 9223372036709301616, 0], [0, 1]]"
    by simp_all
  have d: "mat_dim 2 2 (as_float64 (Int64 [[3037000500, 0], [0, 1]]))"
    by (simp add: mat_dim_def)
  have pr: "update_prior_covariance (Int64 [[1, 0], [0, 1]]) (Int64 [[0, 0], [0, 0]])
     (Int64 [[3037000500, 0], [0, 1]]) (Int64 [[1, 0], [0, 1]]) =
     Int64 [[9223372037000250000, 0], [0, 1]]"
    by (simp add: update_prior_covariance_def Let_def matmul_int64_def transpose_mat_def
        ncols_def col_def upt_rec numeral_2_eq_2)
  have n: "\<not> psd 2 [[- 9223372036709301616, 0], [0, 1]]"
    by (rule not_psd_diag_2) simp
  show ?thesis
    unfolding pr z
    using symmetric_diag_2 [of 1 1] symmetric_diag_2 [of 0 0] psd_diag_2 [of 1 1]
      psd_diag_2 [of 0 0] d n
    by simp
qed

section \<open>Householder reflections\<close>

lemma dot_Nil [simp]: "dot [] y = 0" "dot x [] = 0"
  by (simp_all add: dot_def)

lemma dot_Cons [simp]: "dot (a # x) (b # y) = a * b + dot x y"
  by (simp add: dot_def)

lemma dot_append:
  "length a = length c \<Longrightarrow> dot (a @ b) (c @ e) = dot a c + dot b e"
  by (simp add: dot_def)

lemma dot_take_drop:
  assumes "length x = length y"
  shows "dot x y = dot (take i x) (take i y) + dot (drop i x) (drop i y)"
proof -
  have "dot (take i x @ drop i x) (take i y @ drop i y) =
      dot (take i x) (take i y) + dot (drop i x) (drop i y)"
    using assms by (intro dot_append) simp
  then show ?thesis by simp
qed

lemma mat_dim_outer: "length u = m \<Longrightarrow> length v = n \<Longrightarrow> mat_dim m n (outer u v)"
  by (simp add: mat_dim_def outer_def)

lemma mat_vec_outer:
  "length v = n \<Longrightarrow> length x = n \<Longrightarrow> mat_vec (outer u v) x = smult (dot v x) u"
  by (rule nth_equalityI)
    (simp_all add: outer_def dot_smult_left [where n = n] mult.commute)

lemma mat_dim_reflector:
  "length v = n \<Longrightarrow> mat_dim n n (mat_sub (eye n) (mat_smult c (outer v v)))"
  by (simp add: mat_dim_sub mat_dim_smult mat_dim_outer)

lemma mat_vec_reflector:
  assumes "length v = n" and "length x = n"
  shows "mat_vec (mat_sub (eye n) (mat_smult c (outer v v))) x = reflect c v x"
proof -
  have d: "mat_dim n n (outer v v)" using assms by (simp add: mat_dim_outer)
  have "mat_vec (mat_sub (eye n) (mat_smult c (outer v v))) x =
      vsub x (smult c (smult (dot v x) v))"
    using assms d
    by (simp add: mat_vec_sub [where m = n and n = n] mat_dim_smult mat_vec_eye
        mat_vec_mat_smult [where m = n and n = n] mat_vec_outer [where n = n])
  also have "smult c (smult (dot v x) v) = smult (c * dot v x) v"
    by (simp add: smult_def mult.assoc)
  finally show ?thesis by (simp add: reflect_def)
qed

lemma length_reflect [simp]: "length (reflect c v x) = min (length x) (length v)"
  by (simp add: reflect_def)

lemma dot_reflect_right:
  assumes "length v = n" and "length x = n" and "length y = n"
  shows "dot y (reflect c v x) = dot y x - c * dot v x * dot y v"
  using assms
  by (simp add: reflect_def dot_vsub_right [where n = n] dot_smult_right [where n = n])

lemma dot_reflect_left:
  assumes "length v = n" and "length x = n" and "length y = n"
  shows "dot (reflect c v x) y = dot x y - c * dot v x * dot v y"
  using assms
  by (simp add: reflect_def dot_vsub_left [where n = n] dot_smult_left [where n = n])

lemma reflect_isometry:
  assumes "length v = n" and "length x = n" and "length y = n" and "c * dot v v = 2"
  shows "dot (reflect c v x) (reflect c v y) = dot x y"
proof -
  define p q where "p = dot v x" and "q = dot v y"
  have xv: "dot x v = p" using assms by (simp add: p_def dot_commute)
  have "dot (reflect c v x) (reflect c v y) =
      dot x (reflect c v y) - c * p * dot v (reflect c v y)"
    using assms by (simp add: dot_reflect_left [where n = n] p_def)
  also have "dot x (reflect c v y) = dot x y - c * q * p"
    using assms by (simp add: dot_reflect_right [where n = n] q_def xv)
  also have "dot v (reflect c v y) = q - c * q * dot v v"
    using assms by (simp add: dot_reflect_right [where n = n] q_def)
  also have "dot x y - c * q * p - c * p * (q - c * q * dot v v) =
      dot x y - 2 * (c * p * q) + (c * dot v v) * (c * p * q)"
    by (simp add: algebra_simps)
  also have "\<dots> = dot x y" by (simp add: assms(4))
  finally show ?thesis .
qed

lemma reflect_involution:
  assumes "length v = n" and "length x = n" and "c * dot v v = 2"
  shows "reflect c v (reflect c v x) = x"
proof -
  have "dot v (reflect c v x) = dot v x - (c * dot v v) * dot v x"
    using assms by (simp add: dot_reflect_right [where n = n] algebra_simps)
  also have "\<dots> = - dot v x" by (simp add: assms(3))
  finally have e: "dot v (reflect c v x) = - dot v x" .
  show ?thesis
    using assms
    by (intro nth_equalityI) (simp_all add: reflect_def [of c v "reflect c v x"] e,
        simp add: reflect_def algebra_simps)
qed

lemma reflect_zero:
  assumes "length v = n"
  shows "reflect c v (zero_vec n) = zero_vec n"
  using assms
  by (intro nth_equalityI) (simp_all add: reflect_def dot_zero_right [where n = n])

lemma norm2_sq: "(norm2 a)\<^sup>2 = dot a a"
  by (simp add: norm2_def dot_self_nonneg)

lemma copysign_sq: "(copysign x y)\<^sup>2 = x\<^sup>2"
  by (simp add: copysign_def)

lemma norm2_pos: "\<exists>x\<in>set a. x \<noteq> 0 \<Longrightarrow> 0 < norm2 a"
proof -
  assume "\<exists>x\<in>set a. x \<noteq> 0"
  then have "dot a a \<noteq> 0" by (simp add: dot_self_eq_0)
  then have "0 < dot a a" using dot_self_nonneg [of a] by linarith
  then show ?thesis by (simp add: norm2_def)
qed

lemma House_pivot_sum_nonzero:
  assumes "\<exists>x\<in>set a. x \<noteq> 0"
  shows "a0 + copysign (norm2 a) a0 \<noteq> 0"
  using norm2_pos [OF assms] by (simp add: copysign_def)

lemma dot_map_divide_left: "dot (map (\<lambda>x. x / d) xs) ys = dot xs ys / d"
proof (induction xs arbitrary: ys)
  case Nil
  show ?case by simp
next
  case (Cons x xs)
  show ?case by (cases ys) (simp_all add: Cons.IH add_divide_distrib)
qed

lemma dot_map_divide_right: "dot ys (map (\<lambda>x. x / d) xs) = dot ys xs / d"
proof (induction xs arbitrary: ys)
  case Nil
  show ?case by simp
next
  case (Cons x xs)
  show ?case by (cases ys) (simp_all add: Cons.IH add_divide_distrib)
qed

lemma House_Cons:
  "House (a0 # as) =
     (if a0 + copysign (norm2 (a0 # as)) a0 = 0 \<and> as \<noteq> [] then None
      else Some (mat_sub (eye (Suc (length as)))
        (mat_smult (2 / dot (1 # map (\<lambda>x. x / (a0 + copysign (norm2 (a0 # as)) a0)) as)
                          (1 # map (\<lambda>x. x / (a0 + copysign (norm2 (a0 # as)) a0)) as))
           (outer (1 # map (\<lambda>x. x / (a0 + copysign (norm2 (a0 # as)) a0)) as)
                  (1 # map (\<lambda>x. x / (a0 + copysign (norm2 (a0 # as)) a0)) as)))))"
  by (simp add: House_def Let_def)

lemma House_SomeD:
  assumes "House a = Some H"
  shows "\<exists>v c. a \<noteq> [] \<and> length v = length a \<and> c * dot v v = 2 \<and> v ! 0 = 1 \<and>
           H = mat_sub (eye (length a)) (mat_smult c (outer v v))"
proof (cases a)
  case Nil
  then show ?thesis using assms by (simp add: House_def)
next
  case (Cons a0 as)
  define d where "d = a0 + copysign (norm2 (a0 # as)) a0"
  define v where "v = 1 # map (\<lambda>x. x / d) as"
  have H: "H = mat_sub (eye (length a)) (mat_smult (2 / dot v v) (outer v v))"
    using assms unfolding Cons House_Cons d_def [symmetric] v_def [symmetric]
    by (simp split: if_splits)
  have "0 < dot v v"
    using dot_self_nonneg [of "map (\<lambda>x. x / d) as"] by (simp add: v_def)
  then have "2 / dot v v * dot v v = 2" by simp
  moreover have "length v = length a" "v ! 0 = 1" by (simp_all add: v_def Cons)
  ultimately show ?thesis using H Cons by blast
qed

lemma House_success:
  assumes "\<exists>x\<in>set a. x \<noteq> 0"
  shows "\<exists>H. House a = Some H"
proof (cases a)
  case Nil
  then show ?thesis using assms by simp
next
  case (Cons a0 as)
  have "a0 + copysign (norm2 (a0 # as)) a0 \<noteq> 0"
    using assms unfolding Cons by (rule House_pivot_sum_nonzero)
  then show ?thesis unfolding Cons House_Cons by simp
qed

lemma House_pivot:
  assumes "House (a0 # as) = Some H" and "as \<noteq> []"
  shows "mat_vec H (a0 # as) = (- copysign (norm2 (a0 # as)) a0) # zero_vec (length as)"
    and "copysign (norm2 (a0 # as)) a0 \<noteq> 0"
proof -
  define s where "s = copysign (norm2 (a0 # as)) a0"
  define d where "d = a0 + s"
  define v where "v = 1 # map (\<lambda>x. x / d) as"
  define t where "t = dot as as"
  define c where "c = 2 / dot v v"
  have d0: "d \<noteq> 0"
    using assms unfolding House_Cons d_def s_def by (simp split: if_splits)
  have H: "H = mat_sub (eye (Suc (length as))) (mat_smult c (outer v v))"
    using assms unfolding House_Cons s_def [symmetric] d_def [symmetric] v_def [symmetric]
      c_def [symmetric]
    by (simp split: if_splits)
  have "s\<^sup>2 = (norm2 (a0 # as))\<^sup>2"
    by (simp only: s_def copysign_sq)
  also have "\<dots> = dot (a0 # as) (a0 # as)" by (rule norm2_sq)
  also have "\<dots> = a0\<^sup>2 + t" by (simp add: t_def power2_eq_square)
  finally have "s\<^sup>2 = a0\<^sup>2 + t" .
  then have t: "t = (s - a0) * d"
    by (simp add: d_def power2_eq_square algebra_simps)
  have s0: "s \<noteq> 0"
  proof
    assume "s = 0"
    then have "norm2 (a0 # as) = 0" by (simp add: s_def copysign_def split: if_splits)
    then have "dot (a0 # as) (a0 # as) = 0" using norm2_sq [of "a0 # as"] by simp
    then have "\<forall>x\<in>set (a0 # as). x = 0" by (simp only: dot_self_eq_0)
    then have "a0 = 0" by simp
    then show False using d0 \<open>s = 0\<close> by (simp add: d_def)
  qed
  have va: "dot v (a0 # as) = s"
    using d0 by (simp add: v_def dot_map_divide_left t_def [symmetric] t)
  have "dot v v = 1 + t / (d * d)"
    by (simp add: v_def dot_map_divide_left dot_map_divide_right t_def)
  also have "\<dots> = 1 + (s - a0) / d"
    using d0 by (simp add: t)
  also have "\<dots> = 2 * s / d"
    using d0 by (simp add: d_def field_simps)
  finally have vv: "dot v v = 2 * s / d" .
  have cs: "c * s = d"
    using s0 d0 by (simp add: c_def vv)
  have "mat_vec H (a0 # as) = reflect c v (a0 # as)"
    unfolding H by (rule mat_vec_reflector) (simp_all add: v_def)
  also have "\<dots> = vsub (a0 # as) (smult d v)"
    by (simp add: reflect_def va cs)
  also have "\<dots> = (a0 - d) # zero_vec (length as)"
    using d0 by (intro nth_equalityI) (simp_all add: v_def nth_Cons split: nat.splits)
  also have "a0 - d = - s" by (simp add: d_def)
  finally show "mat_vec H (a0 # as) = (- copysign (norm2 (a0 # as)) a0) # zero_vec (length as)"
    by (simp add: s_def)
  show "copysign (norm2 (a0 # as)) a0 \<noteq> 0" using s0 by (simp add: s_def)
qed

section \<open>The rounds of the QR loop\<close>

lemma mat_dim_embed_block [simp]: "mat_dim m m (embed_block m i Hs)"
  by (simp add: mat_dim_def embed_block_def)

lemma embed_block_row_low:
  assumes "r < i" and "r < m"
  shows "embed_block m i Hs ! r = unit_vec m r"
  using assms by (simp add: embed_block_def unit_vec_def)

lemma embed_block_row_high:
  assumes "i \<le> r" and "r < m" and "mat_dim (m - i) (m - i) Hs"
  shows "embed_block m i Hs ! r = zero_vec i @ Hs ! (r - i)"
proof (rule nth_equalityI)
  have l: "length (Hs ! (r - i)) = m - i"
    using assms by (simp add: mat_dimD(2) [of "m - i" "m - i" Hs])
  show "length (embed_block m i Hs ! r) = length (zero_vec i @ Hs ! (r - i))"
    using assms l by (simp add: embed_block_def)
  fix c assume "c < length (embed_block m i Hs ! r)"
  then have c: "c < m" using assms by (simp add: embed_block_def)
  show "embed_block m i Hs ! r ! c = (zero_vec i @ Hs ! (r - i)) ! c"
    using assms c by (auto simp: embed_block_def nth_append)
qed

lemma dot_zero_append:
  assumes "length x = m" and "i \<le> m"
  shows "dot (zero_vec i @ h) x = dot h (drop i x)"
proof -
  have "dot (zero_vec i @ h) (take i x @ drop i x) =
      dot (zero_vec i) (take i x) + dot h (drop i x)"
    using assms by (intro dot_append) simp
  then show ?thesis
    using assms by (simp add: dot_zero_left [where n = i])
qed

lemma mat_vec_embed_block:
  assumes "i \<le> m" and "mat_dim (m - i) (m - i) Hs" and "length x = m"
  shows "mat_vec (embed_block m i Hs) x = take i x @ mat_vec Hs (drop i x)"
proof (rule nth_equalityI)
  have lH: "length Hs = m - i" using assms by (simp add: mat_dimD(1) [of "m - i" "m - i"])
  have lE: "length (embed_block m i Hs) = m" by (simp add: embed_block_def)
  show "length (mat_vec (embed_block m i Hs) x) = length (take i x @ mat_vec Hs (drop i x))"
    using assms lH lE by simp
  fix r assume "r < length (mat_vec (embed_block m i Hs) x)"
  then have r: "r < m" using lE by simp
  show "mat_vec (embed_block m i Hs) x ! r = (take i x @ mat_vec Hs (drop i x)) ! r"
  proof (cases "r < i")
    case True
    then show ?thesis
      using r assms lE by (simp add: embed_block_row_low dot_unit_left nth_append)
  next
    case False
    then have "i \<le> r" by simp
    then show ?thesis
      using r assms lE lH
      by (simp add: embed_block_row_high dot_zero_append [where m = m] nth_append)
  qed
qed

lemma length_block_reflect:
  "length v = m - i \<Longrightarrow> length x = m \<Longrightarrow> i \<le> m \<Longrightarrow> length (block_reflect i c v x) = m"
  by (simp add: block_reflect_def)

lemma block_reflect_isometry:
  assumes "length v = m - i" and "length x = m" and "length y = m" and "i \<le> m"
    and "c * dot v v = 2"
  shows "dot (block_reflect i c v x) (block_reflect i c v y) = dot x y"
proof -
  have "dot (block_reflect i c v x) (block_reflect i c v y) =
      dot (take i x) (take i y) + dot (reflect c v (drop i x)) (reflect c v (drop i y))"
    unfolding block_reflect_def using assms by (intro dot_append) simp
  also have "dot (reflect c v (drop i x)) (reflect c v (drop i y)) = dot (drop i x) (drop i y)"
    using assms by (intro reflect_isometry [where n = "m - i"]) simp_all
  finally show ?thesis
    using assms dot_take_drop [of x y i] by simp
qed

lemma block_reflect_involution:
  assumes "length v = m - i" and "length x = m" and "i \<le> m" and "c * dot v v = 2"
  shows "block_reflect i c v (block_reflect i c v x) = x"
proof -
  have "reflect c v (reflect c v (drop i x)) = drop i x"
    using assms by (intro reflect_involution [where n = "m - i"]) simp_all
  then show ?thesis
    using assms by (simp add: block_reflect_def)
qed

lemma mat_vec_embed_reflector:
  assumes "i \<le> m" and "length v = m - i" and "length x = m"
  shows "mat_vec (embed_block m i (mat_sub (eye (m - i)) (mat_smult c (outer v v)))) x =
         block_reflect i c v x"
  using assms
  by (simp add: mat_vec_embed_block mat_dim_reflector mat_vec_reflector [where n = "m - i"]
      block_reflect_def)

lemma col_mat_mul:
  assumes "mat_dim m p H" and "mat_dim p n A" and "0 < p" and "k < n"
  shows "col (mat_mul H A) k = mat_vec H (col A k)"
proof -
  have "col (mat_mul H A) k = mat_vec (mat_mul H A) (unit_vec n k)"
    using assms by (simp add: mat_vec_unit [where m = m and n = n] mat_dim_mul [where p = p])
  also have "\<dots> = mat_vec H (mat_vec A (unit_vec n k))"
    using assms by (simp add: mat_vec_mul [where m = m and p = p and n = n])
  also have "\<dots> = mat_vec H (col A k)"
    using assms by (simp add: mat_vec_unit [where m = p and n = n])
  finally show ?thesis .
qed

lemma qr_step_SomeD:
  assumes "qr_step m i (Q, A) = Some (Q', A')"
  shows "\<exists>Hs. House (drop i (col A i)) = Some Hs \<and>
           Q' = mat_mul Q (embed_block m i Hs) \<and> A' = mat_mul (embed_block m i Hs) A"
  using assms by (auto simp: qr_step_def Let_def split: option.splits)

lemma qr_step_inv:
  assumes inv: "qr_inv m n A0 i (Q, A)" and im: "Suc i < m" and "i < n"
    and step: "qr_step m i (Q, A) = Some (Q', A')"
  shows "qr_inv m n A0 (Suc i) (Q', A')"
proof -
  have dQ: "mat_dim m m Q" and dA: "mat_dim m n A"
    and iso: "\<And>x y. length x = m \<Longrightarrow> length y = m \<Longrightarrow>
                dot (mat_vec Q x) (mat_vec Q y) = dot x y"
    and fac: "\<And>w. length w = n \<Longrightarrow> mat_vec Q (mat_vec A w) = mat_vec A0 w"
    and low: "\<And>k r. k < i \<Longrightarrow> r < m \<Longrightarrow> k < r \<Longrightarrow> A ! r ! k = 0"
    and diag: "\<And>k. k < i \<Longrightarrow> A ! k ! k \<noteq> 0"
    using inv by (simp_all add: qr_inv_def)
  have m0: "0 < m" and ilem: "i \<le> m" using im by simp_all
  have lA: "length A = m" and lQ: "length Q = m"
    using dA dQ by (simp_all add: mat_dimD(1) [of m])
  define a where "a = drop i (col A i)"
  have la: "length a = m - i" by (simp add: a_def lA)
  obtain a0 as where a: "a = a0 # as" and as: "as \<noteq> []"
  proof (cases a)
    case Nil
    then show ?thesis using la im by simp
  next
    case (Cons a0 as)
    then have "as \<noteq> []" using la im by auto
    then show ?thesis using Cons that by blast
  qed
  obtain Hs where Hs: "House a = Some Hs"
    and Q': "Q' = mat_mul Q (embed_block m i Hs)"
    and A': "A' = mat_mul (embed_block m i Hs) A"
    using qr_step_SomeD [OF step] unfolding a_def by blast
  obtain v c where lv: "length v = m - i" and cv: "c * dot v v = 2"
    and HsR: "Hs = mat_sub (eye (m - i)) (mat_smult c (outer v v))"
    using House_SomeD [OF Hs] la by auto
  let ?H = "embed_block m i Hs"
  have dH: "mat_dim m m ?H" by simp
  have act: "mat_vec ?H x = block_reflect i c v x" if "length x = m" for x
    unfolding HsR using ilem lv that by (rule mat_vec_embed_reflector)
  have lbr: "length (block_reflect i c v x) = m" if "length x = m" for x
    using lv that ilem by (rule length_block_reflect)
  have dQ': "mat_dim m m Q'" unfolding Q' using dQ dH m0 by (rule mat_dim_mul)
  have dA': "mat_dim m n A'" unfolding A' using dH dA m0 by (rule mat_dim_mul)
  have Q'x: "mat_vec Q' x = mat_vec Q (block_reflect i c v x)" if "length x = m" for x
    unfolding Q' using mat_vec_mul [OF dQ dH m0 that] act [OF that] by simp
  have A'w: "mat_vec A' w = block_reflect i c v (mat_vec A w)" if "length w = n" for w
    unfolding A' using mat_vec_mul [OF dH dA m0 that] act [of "mat_vec A w"] lA by simp
  have iso': "dot (mat_vec Q' x) (mat_vec Q' y) = dot x y"
    if "length x = m" "length y = m" for x y
    using that lbr iso block_reflect_isometry [OF lv that ilem cv] by (simp add: Q'x)
  have fac': "mat_vec Q' (mat_vec A' w) = mat_vec A0 w" if "length w = n" for w
  proof -
    have l: "length (mat_vec A w) = m" by (simp add: lA)
    have "mat_vec Q' (mat_vec A' w) =
        mat_vec Q (block_reflect i c v (block_reflect i c v (mat_vec A w)))"
      using that l lbr by (simp add: A'w Q'x)
    also have "\<dots> = mat_vec Q (mat_vec A w)"
      using block_reflect_involution [OF lv l ilem cv] by simp
    finally show ?thesis using fac that by simp
  qed
  have col': "col A' k = block_reflect i c v (col A k)" if "k < n" for k
    unfolding A' using col_mat_mul [OF dH dA m0 that] act [of "col A k"] lA by simp
  have entry: "A' ! r ! k = block_reflect i c v (col A k) ! r" if "k < n" "r < m" for r k
  proof -
    have "length A' = m" using dA' by (simp add: mat_dimD(1) [of m])
    then have "A' ! r ! k = col A' k ! r" using that by simp
    then show ?thesis using that by (simp add: col')
  qed
  have pivot: "reflect c v a = (- copysign (norm2 a) a0) # zero_vec (length as)"
    and s0: "copysign (norm2 a) a0 \<noteq> 0"
  proof -
    have "mat_vec Hs a = reflect c v a"
      unfolding HsR using lv la by (intro mat_vec_reflector) simp_all
    then show "reflect c v a = (- copysign (norm2 a) a0) # zero_vec (length as)"
      using House_pivot(1) [of a0 as Hs] Hs as by (simp add: a)
    show "copysign (norm2 a) a0 \<noteq> 0"
      using House_pivot(2) [of a0 as Hs] Hs as by (simp add: a)
  qed
  have old_col: "block_reflect i c v (col A k) = take i (col A k) @ zero_vec (m - i)"
    if "k < i" for k
  proof -
    have "drop i (col A k) = zero_vec (m - i)"
      using that low [of k] lA by (intro nth_equalityI) simp_all
    then show ?thesis
      using lv by (simp add: block_reflect_def reflect_zero [where n = "m - i"])
  qed
  have low': "A' ! r ! k = 0" if "k < Suc i" "r < m" "k < r" for k r
  proof (cases "k < i")
    case True
    then have kn: "k < n" using \<open>i < n\<close> by simp
    show ?thesis
    proof (cases "r < i")
      case True
      then show ?thesis
        using \<open>k < i\<close> that low [of k r] lA by (simp add: entry kn old_col nth_append)
    next
      case False
      then show ?thesis
        using \<open>k < i\<close> that lA by (simp add: entry kn old_col nth_append)
    qed
  next
    case False
    then have k: "k = i" using that by simp
    have "block_reflect i c v (col A i) ! r = ((- copysign (norm2 a) a0) # zero_vec (length as)) ! (r - i)"
      using that k lA by (simp add: block_reflect_def a_def [symmetric] pivot nth_append)
    also have "\<dots> = 0"
      using that k la a by (simp add: nth_Cons split: nat.splits)
    finally show ?thesis using that k \<open>i < n\<close> by (simp add: entry)
  qed
  have diag': "A' ! k ! k \<noteq> 0" if "k < Suc i" for k
  proof (cases "k < i")
    case True
    then show ?thesis
      using diag [of k] \<open>i < n\<close> im lA by (simp add: entry old_col nth_append)
  next
    case False
    then have k: "k = i" using that by simp
    have "block_reflect i c v (col A i) ! i = - copysign (norm2 a) a0"
      using lA im by (simp add: block_reflect_def a_def [symmetric] pivot nth_append)
    then show ?thesis using s0 k \<open>i < n\<close> im by (simp add: entry)
  qed
  show ?thesis
    unfolding qr_inv_def using dQ' dA' iso' fac' low' diag' by simp
qed

lemma qr_inv_init:
  assumes "mat_dim m n A"
  shows "qr_inv m n A 0 (eye m, A)"
  using assms by (simp add: qr_inv_def mat_vec_eye mat_dimD(1) [of m n A])

lemma qr_loop_inv:
  assumes "qr_inv m n A0 i s" and "k \<le> n" and "k < m" and "i \<le> k"
    and "qr_loop m [i..<k] s = Some s'"
  shows "qr_inv m n A0 k s'"
  using assms
proof (induction "k - i" arbitrary: i s)
  case 0
  then show ?case by simp
next
  case (Suc j)
  then have ik: "i < k" by simp
  then have upt: "[i..<k] = i # [Suc i..<k]" by (simp add: upt_rec)
  obtain Q A where s: "s = (Q, A)" by (cases s)
  obtain s1 where s1: "qr_step m i s = Some s1" and rest: "qr_loop m [Suc i..<k] s1 = Some s'"
    using Suc.prems(5) unfolding upt by (auto split: option.splits)
  obtain Q1 A1 where s1': "s1 = (Q1, A1)" by (cases s1)
  have "qr_inv m n A0 (Suc i) s1"
    unfolding s1'
  proof (rule qr_step_inv)
    show "qr_inv m n A0 i (Q, A)" using Suc.prems(1) by (simp add: s)
    show "Suc i < m" using ik Suc.prems(3) by simp
    show "i < n" using ik Suc.prems(2) by simp
    show "qr_step m i (Q, A) = Some (Q1, A1)" using s1 by (simp add: s s1')
  qed
  moreover have "j = k - Suc i" using Suc.hyps(2) by simp
  ultimately show ?case
    using Suc.hyps(1) [of "Suc i" s1] Suc.prems(2,3) ik rest by simp
qed

lemma qr_loop_success:
  assumes "pivots_nonzero m js s"
  shows "\<exists>s'. qr_loop m js s = Some s'"
  using assms
proof (induction js arbitrary: s)
  case Nil
  show ?case by simp
next
  case (Cons i js)
  obtain Q A where s: "s = (Q, A)" by (cases s)
  have "\<exists>x\<in>set (drop i (col A i)). x \<noteq> 0"
    using Cons.prems by (simp add: s list_ex_iff)
  then obtain Hs where "House (drop i (col A i)) = Some Hs"
    using House_success by blast
  then obtain s1 where s1: "qr_step m i s = Some s1"
    by (simp add: qr_step_def s Let_def)
  then have "pivots_nonzero m js s1" using Cons.prems by simp
  then show ?case using Cons.IH [of s1] s1 by simp
qed

lemma qr_inv_factor:
  assumes "qr_inv m n A0 k (Q, R)" and "0 < m" and "mat_dim m n A0"
  shows "mat_mul Q R = A0"
proof (rule mat_eq_by_vec [where m = m and n = n])
  have dQ: "mat_dim m m Q" and dR: "mat_dim m n R"
    using assms by (simp_all add: qr_inv_def)
  show "mat_dim m n (mat_mul Q R)" using dQ dR assms(2) by (rule mat_dim_mul)
  show "mat_dim m n A0" by fact
  fix v :: vec assume v: "length v = n"
  have "mat_vec (mat_mul Q R) v = mat_vec Q (mat_vec R v)"
    using dQ dR assms(2) v by (rule mat_vec_mul)
  then show "mat_vec (mat_mul Q R) v = mat_vec A0 v"
    using assms(1) v by (simp add: qr_inv_def)
qed

lemma qr_inv_orthogonal:
  assumes "qr_inv m n A0 k (Q, R)" and "0 < m"
  shows "mat_mul (transpose_mat Q) Q = eye m"
proof (rule mat_eqI [where m = m and n = m])
  have dQ: "mat_dim m m Q"
    and iso: "\<And>x y. length x = m \<Longrightarrow> length y = m \<Longrightarrow>
                dot (mat_vec Q x) (mat_vec Q y) = dot x y"
    using assms by (simp_all add: qr_inv_def)
  have dT: "mat_dim m m (transpose_mat Q)" using dQ assms(2) by (rule mat_dim_transpose)
  show "mat_dim m m (mat_mul (transpose_mat Q) Q)" using dT dQ assms(2) by (rule mat_dim_mul)
  show "mat_dim m m (eye m)" by simp
  fix i j assume ij: "i < m" "j < m"
  have "mat_mul (transpose_mat Q) Q ! i ! j = dot (col Q i) (col Q j)"
    using dT dQ assms(2) ij
    by (simp add: nth_mat_mul [where m = m and p = m and n = m]
        nth_transpose [where m = m and n = m])
  also have "\<dots> = dot (mat_vec Q (unit_vec m i)) (mat_vec Q (unit_vec m j))"
    using dQ ij by (simp add: mat_vec_unit [where m = m and n = m])
  also have "\<dots> = dot (unit_vec m i) (unit_vec m j)"
    by (rule iso) simp_all
  also have "\<dots> = eye m ! i ! j"
    using ij by (simp add: dot_unit_left nth_eye)
  finally show "mat_mul (transpose_mat Q) Q ! i ! j = eye m ! i ! j" .
qed

lemma qr_inv_upper:
  assumes "qr_inv m n A0 (n - (if m = n then 1 else 0)) (Q, R)" and "n \<le> m"
  shows "upper_triangular R"
  unfolding upper_triangular_def
proof (intro allI impI)
  fix r c assume r: "r < length R" and c: "c < r" and "c < length (R ! r)"
  have dR: "mat_dim m n R"
    and low: "\<And>k r. k < n - (if m = n then 1 else 0) \<Longrightarrow> r < m \<Longrightarrow> k < r \<Longrightarrow> R ! r ! k = 0"
    using assms by (simp_all add: qr_inv_def)
  have rm: "r < m" using r dR by (simp add: mat_dimD(1) [of m n R])
  then have cn: "c < n" using \<open>c < length (R ! r)\<close> dR by (simp add: mat_dimD(2) [of m n R])
  have "c < n - (if m = n then 1 else 0)"
    using cn c rm assms(2) by (auto split: if_splits)
  then show "R ! r ! c = 0" using low rm c by blast
qed

lemma qr_returns_inv:
  assumes "mat_dim m n A" and "0 < n" and "n \<le> m" and "qr A = Some (Q, R)"
  shows "qr_inv m n A (n - (if m = n then 1 else 0)) (Q, R)"
proof -
  have m0: "0 < m" using assms by simp
  have lA: "length A = m" and nA: "ncols A = n"
    using assms m0 by (simp_all add: mat_dimD(1) [of m n A] ncols_dim [of m n A])
  have loop: "qr_loop m [0..<n - (if m = n then 1 else 0)] (eye m, A) = Some (Q, R)"
    using assms(4) by (simp add: qr_def Let_def lA nA)
  show ?thesis
  proof (rule qr_loop_inv [OF qr_inv_init [OF assms(1)] _ _ _ loop])
    show "n - (if m = n then 1 else 0) \<le> n" by simp
    show "n - (if m = n then 1 else 0) < m" using assms by (auto split: if_splits)
    show "0 \<le> n - (if m = n then 1 else 0)" by simp
  qed
qed

lemma qr_returns_factorisation:
  assumes "mat_dim m n A" and "0 < n" and "n \<le> m" and "qr A = Some (Q, R)"
  shows "mat_dim m m Q" and "mat_dim m n R" and "mat_mul Q R = A"
    and "mat_mul (transpose_mat Q) Q = eye m" and "upper_triangular R"
proof -
  note inv = qr_returns_inv [OF assms]
  have m0: "0 < m" using assms by simp
  show "mat_dim m m Q" "mat_dim m n R" using inv by (simp_all add: qr_inv_def)
  show "mat_mul Q R = A" using inv m0 assms(1) by (rule qr_inv_factor)
  show "mat_mul (transpose_mat Q) Q = eye m" using inv m0 by (rule qr_inv_orthogonal)
  show "upper_triangular R" using inv assms(3) by (rule qr_inv_upper)
qed

lemma qr_pivots_success:
  assumes "qr_pivots_nonzero A"
  shows "\<exists>Q R. qr A = Some (Q, R)"
  using qr_loop_success [OF assms [unfolded qr_pivots_nonzero_def]]
  by (auto simp: qr_def Let_def)

section \<open>The QR factorisation\<close>

lemma sqrt_25: "sqrt 25 = 5"
proof -
  have "sqrt (5\<^sup>2) = \<bar>5\<bar>" by (rule real_sqrt_abs)
  then show ?thesis by simp
qed

lemma House_3_4_0:
  "House [3, 4, 0] = Some [[- 3 / 5, - 4 / 5, 0], [- 4 / 5, 3 / 5, 0], [0, 0, 1]]"
  by (simp add: House_def Let_def norm2_def copysign_def sqrt_25 eye_def unit_vec_def outer_def
      mat_sub_def mat_smult_def vsub_def smult_def upt_rec numeral_3_eq_3)

lemma House_3_4:
  "House [3, 4] = Some [[- 3 / 5, - 4 / 5], [- 4 / 5, 3 / 5]]"
  by (simp add: House_def Let_def norm2_def copysign_def sqrt_25 eye_def unit_vec_def outer_def
      mat_sub_def mat_smult_def vsub_def smult_def upt_rec numeral_2_eq_2)

lemma qr_example_round_0:
  "qr_step 3 0 (eye 3, [[3, - 12 / 5], [4, 9 / 5], [0, 4]]) =
     Some ([[- 3 / 5, - 4 / 5, 0], [- 4 / 5, 3 / 5, 0], [0, 0, 1]], [[- 5, 0], [0, 3], [0, 4]])"
  by (simp add: qr_step_def col_def House_3_4_0 Let_def embed_block_def mat_mul_def vec_mat_def
      ncols_def dot_def eye_def unit_vec_def upt_rec numeral_3_eq_3)

lemma qr_example_round_1:
  "qr_step 3 1 ([[- 3 / 5, - 4 / 5, 0], [- 4 / 5, 3 / 5, 0], [0, 0, 1]],
       [[- 5, 0], [0, 3], [0, 4]]) =
     Some ([[- 3 / 5, 12 / 25, 16 / 25], [- 4 / 5, - 9 / 25, - 12 / 25], [0, - 4 / 5, 3 / 5]],
       [[- 5, 0], [0, - 5], [0, 0]])"
  by (simp add: qr_step_def col_def House_3_4 Let_def embed_block_def mat_mul_def vec_mat_def
      ncols_def dot_def upt_rec numeral_3_eq_3)

lemma qr_example:
  "qr [[3, - 12 / 5], [4, 9 / 5], [0, 4]] =
     Some ([[- 3 / 5, 12 / 25, 16 / 25], [- 4 / 5, - 9 / 25, - 12 / 25], [0, - 4 / 5, 3 / 5]],
       [[- 5, 0], [0, - 5], [0, 0]])"
    "qr_pivots_nonzero [[3, - 12 / 5], [4, 9 / 5], [0, 4]]"
proof -
  let ?A = "[[3, - 12 / 5], [4, 9 / 5], [0::real, 4]]"
  have u: "[0..<2 - (if (3::nat) = 2 then 1 else 0)] = [0, 1]"
    by (simp add: upt_rec numeral_2_eq_2)
  have n: "ncols ?A = 2" by (simp add: ncols_def)
  have l: "length ?A = 3" by simp
  have p0: "list_ex (\<lambda>a. a \<noteq> 0) (drop 0 (col ?A 0))" by (simp add: col_def)
  have p1: "list_ex (\<lambda>a. a \<noteq> 0) (drop 1 (col [[- 5, 0], [0, 3], [0::real, 4]] 1))"
    by (simp add: col_def)
  show "qr ?A =
     Some ([[- 3 / 5, 12 / 25, 16 / 25], [- 4 / 5, - 9 / 25, - 12 / 25], [0, - 4 / 5, 3 / 5]],
       [[- 5, 0], [0, - 5], [0, 0]])"
    unfolding qr_def Let_def n l u
    by (simp only: qr_loop.simps qr_example_round_0 qr_example_round_1 option.case)
  show "qr_pivots_nonzero ?A"
    unfolding qr_pivots_nonzero_def n l u
    by (simp only: pivots_nonzero.simps qr_example_round_0 qr_example_round_1 option.case
        snd_conv p0 p1 simp_thms)
qed

text \<open>
  C5.  For a matrix \<open>A\<close> of \<open>m\<close> rows and \<open>n\<close> columns, \<open>1 \<le> n \<le> m\<close>, whose pivot
  columns are not zero, \<open>qr\<close> returns a pair \<open>(Q, R)\<close> with \<open>Q R = A\<close>, \<open>Q\<^sup>T Q = I\<close> and \<open>R\<close>
  upper triangular.  (Full column rank is not needed beyond the pivots; it implies
  them, see \<open>full_rank_qr_pivots\<close>.)
\<close>

theorem qr_householder_factorisation:
  assumes "mat_dim m n A" and "0 < n" and "n \<le> m" and "qr_pivots_nonzero A"
  shows "\<exists>Q R. qr A = Some (Q, R) \<and> mat_dim m m Q \<and> mat_dim m n R \<and>
           mat_mul Q R = A \<and> mat_mul (transpose_mat Q) Q = eye m \<and> upper_triangular R"
proof -
  obtain Q R where qr: "qr A = Some (Q, R)"
    using qr_pivots_success [OF assms(4)] by blast
  show ?thesis
    using qr qr_returns_factorisation [OF assms(1-3) qr] by blast
qed

theorem qr_householder_factorisation_witness:
  "mat_dim 3 2 [[3, - 12 / 5], [4, 9 / 5], [0, 4]] \<and> (0::nat) < 2 \<and> (2::nat) \<le> 3 \<and>
   qr_pivots_nonzero [[3, - 12 / 5], [4, 9 / 5], [0, 4]] \<and>
   qr [[3, - 12 / 5], [4, 9 / 5], [0, 4]] =
     Some ([[- 3 / 5, 12 / 25, 16 / 25], [- 4 / 5, - 9 / 25, - 12 / 25], [0, - 4 / 5, 3 / 5]],
       [[- 5, 0], [0, - 5], [0, 0]]) \<and>
   mat_mul [[- 3 / 5, 12 / 25, 16 / 25], [- 4 / 5, - 9 / 25, - 12 / 25], [0, - 4 / 5, 3 / 5]]
     [[- 5, 0], [0, - 5], [0, 0]] = [[3, - 12 / 5], [4, 9 / 5], [0, 4]] \<and>
   mat_mul
     (transpose_mat
       [[- 3 / 5, 12 / 25, 16 / 25], [- 4 / 5, - 9 / 25, - 12 / 25], [0, - 4 / 5, 3 / 5]])
     [[- 3 / 5, 12 / 25, 16 / 25], [- 4 / 5, - 9 / 25, - 12 / 25], [0, - 4 / 5, 3 / 5]] =
     eye 3 \<and>
   upper_triangular [[- 5, 0], [0, - 5], [0, 0]]"
proof -
  let ?A = "[[3, - 12 / 5], [4, 9 / 5], [0::real, 4]]"
  have d: "mat_dim 3 2 ?A" by (simp add: mat_dim_def)
  have n: "(0::nat) < 2" "(2::nat) \<le> 3" by simp_all
  obtain Q R where "qr ?A = Some (Q, R)" and "mat_mul Q R = ?A"
    and "mat_mul (transpose_mat Q) Q = eye 3" and "upper_triangular R"
    using qr_householder_factorisation [OF d n qr_example(2)] by blast
  then show ?thesis
    using d n qr_example by simp
qed

section \<open>Back substitution\<close>

lemma solve_upper_SomeD:
  assumes "solve_upper R c i = Some xs"
  shows "length xs = length R \<and> length c = length R \<and>
     (\<forall>t<length R. R ! t ! (i + t) \<noteq> 0 \<and>
        R ! t ! (i + t) * xs ! t + dot (drop (Suc (i + t)) (R ! t)) (drop (Suc t) xs) = c ! t)"
  using assms
proof (induction R c i arbitrary: xs rule: solve_upper.induct)
  case (1 i)
  then show ?case by simp
next
  case (2 r rs c cs i)
  from "2.prems" obtain ys where ys: "solve_upper rs cs (Suc i) = Some ys"
    and r0: "r ! i \<noteq> 0" and xs: "xs = (c - dot (drop (Suc i) r) ys) / r ! i # ys"
    by (auto split: option.splits if_splits)
  have IH: "length ys = length rs \<and> length cs = length rs \<and>
     (\<forall>t<length rs. rs ! t ! (Suc i + t) \<noteq> 0 \<and>
        rs ! t ! (Suc i + t) * ys ! t + dot (drop (Suc (Suc i + t)) (rs ! t)) (drop (Suc t) ys)
          = cs ! t)"
    using "2.IH" [OF ys] .
  show ?case
  proof (intro conjI allI impI)
    show "length xs = length (r # rs)" using IH by (simp add: xs)
    show "length (c # cs) = length (r # rs)" using IH by simp
    fix t assume t: "t < length (r # rs)"
    show "(r # rs) ! t ! (i + t) \<noteq> 0"
      using t r0 IH by (cases t) simp_all
    show "(r # rs) ! t ! (i + t) * xs ! t +
        dot (drop (Suc (i + t)) ((r # rs) ! t)) (drop (Suc t) xs) = (c # cs) ! t"
      using t r0 IH by (cases t) (simp_all add: xs)
  qed
qed simp_all

lemma solve_upper_success:
  assumes "length c = length R" and "\<forall>t<length R. R ! t ! (i + t) \<noteq> 0"
  shows "\<exists>xs. solve_upper R c i = Some xs"
  using assms
proof (induction R arbitrary: c i)
  case Nil
  then show ?case by simp
next
  case (Cons r rs)
  obtain c0 cs where c: "c = c0 # cs" using Cons.prems(1) by (cases c) simp_all
  have "\<forall>t<length rs. rs ! t ! (Suc i + t) \<noteq> 0"
    using Cons.prems(2) by (auto dest: spec [where x = "Suc t" for t])
  then obtain ys where "solve_upper rs cs (Suc i) = Some ys"
    using Cons.IH [of cs "Suc i"] Cons.prems(1) c by auto
  moreover have "r ! i \<noteq> 0" using Cons.prems(2) by (auto dest: spec [where x = 0])
  ultimately show ?case by (simp add: c)
qed

lemma solve_triangular_correct:
  assumes "mat_dim k k R" and "upper_triangular R" and "solve_triangular R c = Some xs"
  shows "length xs = k" and "mat_vec R xs = c"
proof -
  have lR: "length R = k" using assms(1) by (simp add: mat_dimD(1) [of k k R])
  note sol = solve_upper_SomeD [OF assms(3) [unfolded solve_triangular_def]]
  show lx: "length xs = k" using sol lR by simp
  show "mat_vec R xs = c"
  proof (rule nth_equalityI)
    show "length (mat_vec R xs) = length c" using sol by simp
    fix t assume "t < length (mat_vec R xs)"
    then have t: "t < k" using lR by simp
    have lrow: "length (R ! t) = k" using assms(1) t by (simp add: mat_dimD(2) [of k k R])
    have "take t (R ! t) = zero_vec t"
      using assms(2) t lrow lR
      by (intro nth_equalityI) (simp_all add: upper_triangular_def)
    then have "dot (take t (R ! t)) (take t xs) = 0"
      using lx t by (simp add: dot_zero_left [where n = t])
    moreover have "drop t (R ! t) = R ! t ! t # drop (Suc t) (R ! t)"
      using t lrow by (simp add: Cons_nth_drop_Suc)
    moreover have "drop t xs = xs ! t # drop (Suc t) xs"
      using t lx by (simp add: Cons_nth_drop_Suc)
    ultimately have "dot (R ! t) xs =
        R ! t ! t * xs ! t + dot (drop (Suc t) (R ! t)) (drop (Suc t) xs)"
      using dot_take_drop [of "R ! t" xs t] lrow lx by simp
    then show "mat_vec R xs ! t = c ! t"
      using sol t lR by simp
  qed
qed

section \<open>Full column rank and the pivots\<close>

lemma kernel_vector:
  assumes dM: "mat_dim m n M" and "i < n" and "i \<le> m"
    and diag: "\<forall>c<i. M ! c ! c \<noteq> 0"
    and low: "\<forall>c<i. \<forall>r<m. c < r \<longrightarrow> M ! r ! c = 0"
    and coli: "\<forall>r<m. i \<le> r \<longrightarrow> M ! r ! i = 0"
  shows "\<exists>v. length v = n \<and> v \<noteq> zero_vec n \<and> mat_vec M v = zero_vec m"
proof -
  have lM: "length M = m" using dM by (simp add: mat_dimD(1) [of m n M])
  have lrow: "length (M ! r) = n" if "r < m" for r
    using dM that by (simp add: mat_dimD(2) [of m n M])
  define T where "T = map (take i) (take i M)"
  define t where "t = map (\<lambda>r. - (M ! r ! i)) [0..<i]"
  have lT: "length T = i" using assms lM by (simp add: T_def)
  have Trow: "T ! r = take i (M ! r)" if "r < i" for r
    using that assms lM by (simp add: T_def)
  have dT: "mat_dim i i T"
    using assms lM lrow by (intro mat_dimI) (simp_all add: T_def)
  have uT: "upper_triangular T"
    unfolding upper_triangular_def using low assms lT by (simp add: Trow)
  have "\<forall>r<length T. T ! r ! (0 + r) \<noteq> 0"
    using diag lT by (simp add: Trow)
  then obtain w where w: "solve_upper T t 0 = Some w"
    using solve_upper_success [of t T 0] lT by (auto simp: t_def)
  have lw: "length w = i" and Tw: "mat_vec T w = t"
    using solve_triangular_correct [OF dT uT, of t w] w by (simp_all add: solve_triangular_def)
  define v where "v = w @ 1 # zero_vec (n - Suc i)"
  have lv: "length v = n" using assms lw by (simp add: v_def)
  have "v ! i = 1" using lw by (simp add: v_def nth_append)
  then have v0: "v \<noteq> zero_vec n" using \<open>i < n\<close> by (auto simp: zero_vec_def)
  have "mat_vec M v = zero_vec m"
  proof (rule nth_equalityI)
    show "length (mat_vec M v) = length (zero_vec m)" using lM by simp
    fix r assume "r < length (mat_vec M v)"
    then have r: "r < m" using lM by simp
    have split: "M ! r = take i (M ! r) @ M ! r ! i # drop (Suc i) (M ! r)"
      using lrow [OF r] \<open>i < n\<close> by (simp add: id_take_nth_drop [symmetric])
    have "dot (M ! r) v =
        dot (take i (M ! r) @ M ! r ! i # drop (Suc i) (M ! r)) (w @ 1 # zero_vec (n - Suc i))"
      using split by (simp add: v_def)
    also have "\<dots> = dot (take i (M ! r)) w +
        dot (M ! r ! i # drop (Suc i) (M ! r)) (1 # zero_vec (n - Suc i))"
      using lrow [OF r] \<open>i < n\<close> lw by (intro dot_append) simp
    also have "\<dots> = dot (take i (M ! r)) w + M ! r ! i"
      using lrow [OF r] by (simp add: dot_zero_right [where n = "n - Suc i"])
    finally have e: "dot (M ! r) v = dot (take i (M ! r)) w + M ! r ! i" .
    have "dot (take i (M ! r)) w + M ! r ! i = 0"
    proof (cases "r < i")
      case True
      have "dot (take i (M ! r)) w = mat_vec T w ! r"
        using True lT by (simp add: Trow)
      also have "\<dots> = - (M ! r ! i)"
        using True by (simp add: Tw t_def)
      finally show ?thesis by simp
    next
      case False
      have "take i (M ! r) = zero_vec i"
        using low False r lrow [OF r] \<open>i < n\<close> by (intro nth_equalityI) simp_all
      moreover have "M ! r ! i = 0" using coli False r by simp
      ultimately show ?thesis using lw by (simp add: dot_zero_left [where n = i])
    qed
    then show "mat_vec M v ! r = zero_vec m ! r"
      using r lM e by simp
  qed
  then show ?thesis using lv v0 by blast
qed

lemma qr_inv_full_rank:
  assumes inv: "qr_inv m n A0 i (Q, A)" and dA0: "mat_dim m n A0" and "0 < m"
    and rank: "full_col_rank A0" and "length v = n" and "mat_vec A v = zero_vec m"
  shows "v = zero_vec n"
proof -
  have dQ: "mat_dim m m Q"
    and fac: "\<And>w. length w = n \<Longrightarrow> mat_vec Q (mat_vec A w) = mat_vec A0 w"
    using inv by (simp_all add: qr_inv_def)
  have "mat_vec A0 v = mat_vec Q (zero_vec m)"
    using fac [OF assms(5)] assms(6) by simp
  also have "\<dots> = zero_vec m" using dQ by (rule mat_vec_zero)
  finally have "mat_vec A0 v = zero_vec m" .
  moreover have "length A0 = m" "ncols A0 = n"
    using dA0 \<open>0 < m\<close> by (simp_all add: mat_dimD(1) [of m n A0] ncols_dim [of m n A0])
  ultimately show ?thesis
    using rank assms(5) unfolding full_col_rank_def by simp
qed

lemma qr_pivot_nonzero:
  assumes inv: "qr_inv m n A0 i (Q, A)" and dA0: "mat_dim m n A0"
    and rank: "full_col_rank A0" and "i < n" and "i < m"
  shows "\<exists>x\<in>set (drop i (col A i)). x \<noteq> 0"
proof (rule ccontr)
  assume "\<not> (\<exists>x\<in>set (drop i (col A i)). x \<noteq> 0)"
  then have z: "\<forall>x\<in>set (drop i (col A i)). x = 0" by simp
  have dA: "mat_dim m n A"
    and low: "\<forall>c<i. \<forall>r<m. c < r \<longrightarrow> A ! r ! c = 0"
    and diag: "\<forall>c<i. A ! c ! c \<noteq> 0"
    using inv by (simp_all add: qr_inv_def)
  have lA: "length A = m" using dA by (simp add: mat_dimD(1) [of m n A])
  have coli: "\<forall>r<m. i \<le> r \<longrightarrow> A ! r ! i = 0"
  proof (intro allI impI)
    fix r assume r: "r < m" "i \<le> r"
    then have "drop i (col A i) ! (r - i) \<in> set (drop i (col A i))"
      using lA by (intro nth_mem) simp
    then have "drop i (col A i) ! (r - i) = 0" using z by blast
    then show "A ! r ! i = 0" using r lA by simp
  qed
  obtain v where "length v = n" "v \<noteq> zero_vec n" "mat_vec A v = zero_vec m"
    using kernel_vector [OF dA \<open>i < n\<close> _ diag low coli] \<open>i < m\<close> by auto
  then show False
    using qr_inv_full_rank [OF inv dA0 _ rank] \<open>i < m\<close> by auto
qed

lemma full_rank_loop_pivots:
  assumes "qr_inv m n A0 i s" and "mat_dim m n A0" and "full_col_rank A0"
    and "k \<le> n" and "k < m" and "i \<le> k"
  shows "pivots_nonzero m [i..<k] s"
  using assms
proof (induction "k - i" arbitrary: i s)
  case 0
  then show ?case by simp
next
  case (Suc j)
  then have ik: "i < k" by simp
  then have upt: "[i..<k] = i # [Suc i..<k]" by (simp add: upt_rec)
  obtain Q A where s: "s = (Q, A)" by (cases s)
  have inv: "qr_inv m n A0 i (Q, A)" using Suc.prems(1) by (simp add: s)
  have piv: "\<exists>x\<in>set (drop i (col A i)). x \<noteq> 0"
    using inv Suc.prems(2,3)
  proof (rule qr_pivot_nonzero)
    show "i < n" using ik Suc.prems(4) by simp
    show "i < m" using ik Suc.prems(5) by simp
  qed
  have rest: "pivots_nonzero m [Suc i..<k] s1" if s1: "qr_step m i s = Some s1" for s1
  proof -
    obtain Q1 A1 where s1': "s1 = (Q1, A1)" by (cases s1)
    have "qr_inv m n A0 (Suc i) (Q1, A1)"
    proof (rule qr_step_inv [OF inv])
      show "Suc i < m" using ik Suc.prems(5) by simp
      show "i < n" using ik Suc.prems(4) by simp
      show "qr_step m i (Q, A) = Some (Q1, A1)" using s1 by (simp add: s s1')
    qed
    moreover have "j = k - Suc i" using Suc.hyps(2) by simp
    ultimately show ?thesis
      using Suc.hyps(1) [of "Suc i" s1] Suc.prems(2-5) ik by (simp add: s1')
  qed
  show ?case
    unfolding upt using piv rest
    by (simp add: s list_ex_iff split: option.splits)
qed

lemma full_rank_qr_pivots:
  assumes "mat_dim m n A" and "0 < n" and "n \<le> m" and "full_col_rank A"
  shows "qr_pivots_nonzero A"
proof -
  have m0: "0 < m" using assms by simp
  have lA: "length A = m" and nA: "ncols A = n"
    using assms m0 by (simp_all add: mat_dimD(1) [of m n A] ncols_dim [of m n A])
  have "pivots_nonzero m [0..<n - (if m = n then 1 else 0)] (eye m, A)"
  proof (rule full_rank_loop_pivots [OF qr_inv_init [OF assms(1)] assms(1,4)])
    show "n - (if m = n then 1 else 0) \<le> n" by simp
    show "n - (if m = n then 1 else 0) < m" using assms by (auto split: if_splits)
    show "0 \<le> n - (if m = n then 1 else 0)" by simp
  qed
  then show ?thesis by (simp add: qr_pivots_nonzero_def lA nA)
qed

lemma full_rank_qr_diagonal:
  assumes "mat_dim m n A" and "0 < n" and "n \<le> m" and "full_col_rank A"
    and "qr A = Some (Q, R)" and "c < n"
  shows "R ! c ! c \<noteq> 0"
proof -
  note inv = qr_returns_inv [OF assms(1-3,5)]
  have m0: "0 < m" using assms by simp
  have dR: "mat_dim m n R"
    and low: "\<forall>k<n - (if m = n then 1 else 0). \<forall>r<m. k < r \<longrightarrow> R ! r ! k = 0"
    and diag: "\<forall>k<n - (if m = n then 1 else 0). R ! k ! k \<noteq> 0"
    using inv by (simp_all add: qr_inv_def)
  show ?thesis
  proof (cases "c < n - (if m = n then 1 else 0)")
    case True
    then show ?thesis using diag by blast
  next
    case False
    then have mn: "m = n" and c: "c = n - 1" using assms(6) by (auto split: if_splits)
    show ?thesis
    proof
      assume z: "R ! c ! c = 0"
      have coli: "\<forall>r<m. c \<le> r \<longrightarrow> R ! r ! c = 0"
        using z mn c by (auto simp: le_less)
      have low': "\<forall>k<c. \<forall>r<m. k < r \<longrightarrow> R ! r ! k = 0" using low mn c by simp
      have diag': "\<forall>k<c. R ! k ! k \<noteq> 0" using diag mn c by simp
      obtain v where "length v = n" "v \<noteq> zero_vec n" "mat_vec R v = zero_vec m"
        using kernel_vector [OF dR assms(6) _ diag' low' coli] assms(3,6) by auto
      then show False
        using qr_inv_full_rank [OF inv assms(1) m0 assms(4)] by auto
    qed
  qed
qed

section \<open>Least squares by the QR factorisation\<close>

lemma least_squares_expansion:
  assumes dx: "mat_dim m n x" and "length y = m" and "length b = n" and "length b' = n"
    and orth: "\<And>v. length v = n \<Longrightarrow> dot (mat_vec x v) (vsub (mat_vec x b) y) = 0"
  shows "sq_err x y b' =
     sq_err x y b + dot (mat_vec x (vsub b' b)) (mat_vec x (vsub b' b))"
proof -
  have lx: "length x = m" using dx by (simp add: mat_dimD(1) [of m n x])
  define e where "e = vsub y (mat_vec x b)"
  define g where "g = mat_vec x (vsub b' b)"
  have le: "length e = m" and lg: "length g = m" using assms lx by (simp_all add: e_def g_def)
  have g: "g = vsub (mat_vec x b') (mat_vec x b)"
    using assms by (simp add: g_def mat_vec_vsub [where m = m and n = n])
  have split: "vsub y (mat_vec x b') = vsub e g"
    using assms lx by (intro nth_equalityI) (simp_all add: e_def g)
  have "dot g (vsub (mat_vec x b) y) = 0"
    unfolding g_def using assms by (intro orth) simp
  then have "dot g (mat_vec x b) = dot g y"
    using lg lx assms by (simp add: dot_vsub_right [where n = m])
  then have ge: "dot g e = 0"
    using lg lx assms by (simp add: e_def dot_vsub_right [where n = m])
  then have eg: "dot e g = 0" using le lg by (simp add: dot_commute)
  have "sq_err x y b' = dot (vsub e g) (vsub e g)" by (simp add: sq_err_def split)
  also have "\<dots> = dot e e - dot e g - (dot g e - dot g g)"
    using le lg by (simp add: dot_vsub_left [where n = m] dot_vsub_right [where n = m])
  also have "\<dots> = dot e e + dot g g" by (simp add: ge eg)
  finally show ?thesis by (simp add: sq_err_def e_def g_def)
qed

lemma least_squares_orthogonal_min:
  assumes dx: "mat_dim m n x" and "0 < m" and "length y = m" and "length b = n"
    and orth: "\<And>v. length v = n \<Longrightarrow> dot (mat_vec x v) (vsub (mat_vec x b) y) = 0"
  shows "least_squares x y b"
proof -
  have nx: "ncols x = n" using dx \<open>0 < m\<close> by (rule ncols_dim)
  have "sq_err x y b \<le> sq_err x y b'" if "length b' = n" for b'
    using least_squares_expansion [OF dx assms(3,4) that orth]
      dot_self_nonneg [of "mat_vec x (vsub b' b)"] by linarith
  then show ?thesis
    unfolding least_squares_def nx using assms(4) by blast
qed

lemma least_squares_orthogonal_normal:
  assumes dx: "mat_dim m n x" and "0 < m" and "length y = m" and "length b = n"
    and orth: "\<And>v. length v = n \<Longrightarrow> dot (mat_vec x v) (vsub (mat_vec x b) y) = 0"
  shows "normal_equations x y b"
proof -
  have lx: "length x = m" using dx by (rule mat_dimD(1))
  have nx: "ncols x = n" using dx \<open>0 < m\<close> by (rule ncols_dim)
  have lT: "length (transpose_mat x) = n"
    using dx \<open>0 < m\<close> by (rule length_transpose)
  have "mat_vec (transpose_mat x) (mat_vec x b) = mat_vec (transpose_mat x) y"
  proof (rule nth_equalityI)
    show "length (mat_vec (transpose_mat x) (mat_vec x b)) = length (mat_vec (transpose_mat x) y)"
      by simp
    fix j assume "j < length (mat_vec (transpose_mat x) (mat_vec x b))"
    then have j: "j < n" using lT by simp
    have "dot (mat_vec x (unit_vec n j)) (vsub (mat_vec x b) y) = 0"
      by (rule orth) simp
    then have "dot (col x j) (vsub (mat_vec x b) y) = 0"
      using mat_vec_unit [OF dx j] by simp
    then have "dot (col x j) (mat_vec x b) = dot (col x j) y"
      using lx assms(3) by (simp add: dot_vsub_right [where n = m])
    then show "mat_vec (transpose_mat x) (mat_vec x b) ! j = mat_vec (transpose_mat x) y ! j"
      using j lT nth_transpose [OF dx \<open>0 < m\<close> j] by simp
  qed
  then show ?thesis
    unfolding normal_equations_def nx using assms(4) by simp
qed

lemma least_squares_orthogonal_unique:
  assumes dx: "mat_dim m n x" and "0 < m" and "length y = m" and "length b = n"
    and orth: "\<And>v. length v = n \<Longrightarrow> dot (mat_vec x v) (vsub (mat_vec x b) y) = 0"
    and rank: "full_col_rank x" and ls': "least_squares x y b'"
  shows "b' = b"
proof -
  have lx: "length x = m" using dx by (rule mat_dimD(1))
  have nx: "ncols x = n" using dx \<open>0 < m\<close> by (rule ncols_dim)
  have lb': "length b' = n" using ls' by (simp add: least_squares_def nx)
  define g where "g = mat_vec x (vsub b' b)"
  have "sq_err x y b' \<le> sq_err x y b"
    using ls' assms(4) unfolding least_squares_def nx by blast
  then have "dot g g \<le> 0"
    using least_squares_expansion [OF dx assms(3,4) lb' orth] by (simp add: g_def)
  then have "dot g g = 0" using dot_self_nonneg [of g] by linarith
  moreover have lg: "length g = m" by (simp add: g_def lx)
  ultimately have "g = zero_vec m" using dot_self_eq_0_zero [OF lg] by blast
  moreover have "length (vsub b' b) = n" using lb' assms(4) by simp
  ultimately have z: "vsub b' b = zero_vec n"
    using rank unfolding full_col_rank_def nx lx g_def by blast
  show "b' = b"
  proof (rule nth_equalityI)
    show "length b' = length b" using lb' assms(4) by simp
    fix i assume "i < length b'"
    then have i: "i < n" using lb' by simp
    have "vsub b' b ! i = 0" using z i by simp
    then show "b' ! i = b ! i" using i lb' assms(4) by simp
  qed
qed

lemma beta_qr_orthogonal:
  assumes dx: "mat_dim m n x" and "0 < n" and "n \<le> m" and ly: "length y = m"
    and rank: "full_col_rank x"
  shows "\<exists>b. beta_qr x y = Some b \<and> length b = n \<and>
           (\<forall>v. length v = n \<longrightarrow> dot (mat_vec x v) (vsub (mat_vec x b) y) = 0)"
proof -
  have m0: "0 < m" using assms by simp
  have nx: "ncols x = n" using dx m0 by (rule ncols_dim)
  obtain Q R where qr: "qr x = Some (Q, R)"
    using qr_pivots_success [OF full_rank_qr_pivots [OF dx assms(2,3) rank]] by blast
  note inv = qr_returns_inv [OF dx assms(2,3) qr]
  have dQ: "mat_dim m m Q" and dR: "mat_dim m n R"
    and iso: "\<And>a b. length a = m \<Longrightarrow> length b = m \<Longrightarrow>
                dot (mat_vec Q a) (mat_vec Q b) = dot a b"
    and fac: "\<And>w. length w = n \<Longrightarrow> mat_vec Q (mat_vec R w) = mat_vec x w"
    using inv by (simp_all add: qr_inv_def)
  have uR: "upper_triangular R"
    using qr_returns_factorisation(5) [OF dx assms(2,3) qr] .
  have lQ: "length Q = m" and lR: "length R = m"
    using dQ dR by (simp_all add: mat_dimD(1) [of m])
  have rowR: "length (R ! r) = n" if "r < m" for r
    using dR that by (rule mat_dimD(2))
  have rowQ: "length (Q ! r) = m" if "r < m" for r
    using dQ that by (rule mat_dimD(2))
  define R1 where "R1 = map (take n) (take n R)"
  define Q1 where "Q1 = map (take n) Q"
  define c1 where "c1 = mat_vec (transpose_mat Q1) y"
  have R1row: "R1 ! r = R ! r" if "r < n" for r
    using that assms(3) lR rowR [of r] by (simp add: R1_def)
  have lR1: "length R1 = n" using assms(3) lR by (simp add: R1_def)
  have dR1: "mat_dim n n R1"
    using lR1 rowR assms(3) by (intro mat_dimI) (simp_all add: R1row)
  have uR1: "upper_triangular R1"
    unfolding upper_triangular_def
  proof (intro allI impI)
    fix r c assume "r < length R1" and "c < r" and "c < length (R1 ! r)"
    then have "r < n" "c < r" "c < length (R ! r)" using lR1 by (simp_all add: R1row)
    then show "R1 ! r ! c = 0"
      using uR lR assms(3) by (simp add: R1row upper_triangular_def)
  qed
  have dQ1: "mat_dim m n Q1"
    using lQ rowQ assms(3) by (intro mat_dimI) (simp_all add: Q1_def)
  have colQ1: "col Q1 j = col Q j" if "j < n" for j
    using that lQ rowQ assms(3) by (intro nth_equalityI) (simp_all add: Q1_def)
  have lc1: "length c1 = n"
    using length_transpose [OF dQ1 m0] by (simp add: c1_def)
  have c1: "c1 ! j = dot (col Q j) y" if "j < n" for j
    using that length_transpose [OF dQ1 m0] nth_transpose [OF dQ1 m0 that]
    by (simp add: c1_def colQ1)
  have "\<forall>t<length R1. R1 ! t ! (0 + t) \<noteq> 0"
    using full_rank_qr_diagonal [OF dx assms(2,3) rank qr] lR1 by (simp add: R1row)
  then obtain b where b: "solve_triangular R1 c1 = Some b"
    using solve_upper_success [of c1 R1 0] lc1 lR1 by (auto simp: solve_triangular_def)
  have lb: "length b = n" and R1b: "mat_vec R1 b = c1"
    using solve_triangular_correct [OF dR1 uR1 b] by simp_all
  have beta: "beta_qr x y = Some b"
    using b by (simp add: beta_qr_def qr nx Let_def R1_def Q1_def c1_def)
  have orth: "dot (mat_vec x v) (vsub (mat_vec x b) y) = 0" if v: "length v = n" for v
  proof -
    define a where "a = mat_vec R v"
    define h where "h = mat_vec R b"
    define q where "q = mat_vec (transpose_mat Q) y"
    have la: "length a = m" and lh: "length h = m" by (simp_all add: a_def h_def lR)
    have lq: "length q = m" using length_transpose [OF dQ m0] by (simp add: q_def)
    have "dot (mat_vec x v) (vsub (mat_vec x b) y) =
        dot (mat_vec Q a) (vsub (mat_vec Q h) y)"
      using fac v lb by (simp add: a_def h_def)
    also have "\<dots> = dot (mat_vec Q a) (mat_vec Q h) - dot (mat_vec Q a) y"
      using ly lQ by (simp add: dot_vsub_right [where n = m])
    also have "dot (mat_vec Q a) (mat_vec Q h) = dot a h"
      using la lh by (rule iso)
    also have "dot (mat_vec Q a) y = dot a q"
      unfolding q_def using dQ m0 la ly by (rule dot_mat_vec_transpose)
    also have "dot a h - dot a q = dot a (vsub h q)"
      using la lh lq by (simp add: dot_vsub_right [where n = m])
    also have "\<dots> = (\<Sum>r<m. a ! r * vsub h q ! r)"
      using la lh lq by (simp add: dot_sum [where n = m])
    also have "\<dots> = 0"
    proof (rule sum.neutral, rule ballI)
      fix r assume "r \<in> {..<m}"
      then have r: "r < m" by simp
      show "a ! r * vsub h q ! r = 0"
      proof (cases "r < n")
        case True
        have "h ! r = dot (R1 ! r) b" using True r lR by (simp add: h_def R1row)
        also have "\<dots> = mat_vec R1 b ! r" using True lR1 by simp
        also have "\<dots> = dot (col Q r) y" using True by (simp add: R1b c1)
        also have "\<dots> = q ! r"
          using True r length_transpose [OF dQ m0] nth_transpose [OF dQ m0 r]
          by (simp add: q_def)
        finally show ?thesis using r lh lq by simp
      next
        case False
        have "R ! r = zero_vec n"
          using uR False r lR rowR [OF r]
          by (intro nth_equalityI) (simp_all add: upper_triangular_def)
        then have "a ! r = 0"
          using r lR v by (simp add: a_def dot_zero_left [where n = n])
        then show ?thesis by simp
      qed
    qed
    finally show ?thesis .
  qed
  show ?thesis using beta lb orth by blast
qed

text \<open>
  C6.  For every design matrix \<open>x\<close> of \<open>m\<close> rows and \<open>n\<close> columns, \<open>1 \<le> n \<le> m\<close>, of
  full column rank and every response \<open>y\<close>, \<open>beta_qr\<close> returns coefficients; they
  minimise \<open>\<parallel>y - x b\<parallel>\<^sup>2\<close>, they solve the normal equations, and they are the only
  minimiser: the coefficients of the reference least-squares solver.
\<close>

theorem beta_qr_least_squares:
  assumes "mat_dim m n x" and "0 < n" and "n \<le> m" and "length y = m"
    and "full_col_rank x"
  shows "\<exists>b. beta_qr x y = Some b \<and> least_squares x y b \<and> normal_equations x y b \<and>
           (\<forall>b'. least_squares x y b' \<longrightarrow> b' = b)"
proof -
  have m0: "0 < m" using assms by simp
  obtain b where b: "beta_qr x y = Some b" and lb: "length b = n"
    and orth: "\<And>v. length v = n \<Longrightarrow> dot (mat_vec x v) (vsub (mat_vec x b) y) = 0"
    using beta_qr_orthogonal [OF assms] by blast
  have "least_squares x y b"
    using assms(1) m0 assms(4) lb orth by (rule least_squares_orthogonal_min)
  moreover have "normal_equations x y b"
    using assms(1) m0 assms(4) lb orth by (rule least_squares_orthogonal_normal)
  moreover have "b' = b" if "least_squares x y b'" for b'
    using assms(1) m0 assms(4) lb orth assms(5) that by (rule least_squares_orthogonal_unique)
  ultimately show ?thesis using b by blast
qed

lemma full_col_rank_example: "full_col_rank [[3, - 12 / 5], [4, 9 / 5], [0, 4]]"
  unfolding full_col_rank_def
proof (intro allI impI)
  fix v :: vec
  assume "length v = ncols [[3, - 12 / 5], [4, 9 / 5], [0, 4]]"
    and z: "mat_vec [[3, - 12 / 5], [4, 9 / 5], [0, 4]] v =
      zero_vec (length [[3, - 12 / 5], [4, 9 / 5], [0::real, 4]])"
  then have "length v = 2" by (simp add: ncols_def)
  then obtain a b where v: "v = [a, b]"
    by (cases v; cases "tl v") (auto simp: numeral_2_eq_2)
  from z have "b = 0" by (simp add: v mat_vec_def zero_vec_def numeral_3_eq_3)
  moreover from z have "3 * a + - 12 / 5 * b = 0"
    by (simp add: v mat_vec_def zero_vec_def numeral_3_eq_3)
  ultimately have "a = 0" by simp
  then show "v = zero_vec (ncols [[3, - 12 / 5], [4, 9 / 5], [0, 4]])"
    using \<open>b = 0\<close> by (simp add: v ncols_def zero_vec_def numeral_2_eq_2)
qed

lemma beta_qr_example:
  "beta_qr [[3, - 12 / 5], [4, 9 / 5], [0, 4]] [71 / 5, - 22 / 5, 23] = Some [1, 2]"
proof -
  have n: "ncols [[3, - 12 / 5], [4, 9 / 5], [0::real, 4]] = 2" by (simp add: ncols_def)
  show ?thesis
    unfolding beta_qr_def qr_example(1) n
    by (simp add: Let_def solve_triangular_def transpose_mat_def ncols_def col_def mat_vec_def
        upt_rec numeral_2_eq_2)
qed

theorem beta_qr_least_squares_witness:
  "mat_dim 3 2 [[3, - 12 / 5], [4, 9 / 5], [0, 4]] \<and> (0::nat) < 2 \<and> (2::nat) \<le> 3 \<and>
   length [71 / 5, - 22 / 5, 23 :: real] = 3 \<and>
   full_col_rank [[3, - 12 / 5], [4, 9 / 5], [0, 4]] \<and>
   beta_qr [[3, - 12 / 5], [4, 9 / 5], [0, 4]] [71 / 5, - 22 / 5, 23] = Some [1, 2] \<and>
   least_squares [[3, - 12 / 5], [4, 9 / 5], [0, 4]] [71 / 5, - 22 / 5, 23] [1, 2] \<and>
   normal_equations [[3, - 12 / 5], [4, 9 / 5], [0, 4]] [71 / 5, - 22 / 5, 23] [1, 2]"
proof -
  let ?x = "[[3, - 12 / 5], [4, 9 / 5], [0::real, 4]]"
  let ?y = "[71 / 5, - 22 / 5, 23 :: real]"
  have d: "mat_dim 3 2 ?x" by (simp add: mat_dim_def)
  have n: "(0::nat) < 2" "(2::nat) \<le> 3" by simp_all
  have l: "length ?y = 3" by simp
  obtain b where "beta_qr ?x ?y = Some b" and "least_squares ?x ?y b"
    and "normal_equations ?x ?y b"
    using beta_qr_least_squares [OF d n l full_col_rank_example] by blast
  then show ?thesis
    using d n full_col_rank_example beta_qr_example by simp
qed

section \<open>The shapes of the matrices\<close>

lemma mat_dim_r_matrix: "mat_dim n (length v div n) (r_matrix v n)"
  by (simp add: mat_dim_def r_matrix_def)

lemma mat_dim_cbind1: "mat_dim m n M \<Longrightarrow> mat_dim m (Suc n) (cbind1 M)"
  by (auto simp: mat_dim_def cbind1_def)

lemma mat_dim_np_matrix: "mat_dim m n (np_matrix v m n)"
  by (simp add: mat_dim_def np_matrix_def)

lemma admm_simulate_shape:
  assumes "0 < n"
  shows "mat_dim n (Suc p) (fst (snd (admm_simulate draw n p g)))"
proof -
  obtain bs g1 where r1: "rnorm draw p g = (bs, g1)" by (cases "rnorm draw p g")
  obtain xs g2 where r2: "rnorm draw (n * p) g1 = (xs, g2)" by (cases "rnorm draw (n * p) g1")
  obtain es g3 where r3: "rnorm draw n g2 = (es, g3)" by (cases "rnorm draw n g2")
  have "length xs = n * p" using length_rnorm [of draw "n * p" g1] by (simp add: r2)
  then have "length xs div n = p" using assms by simp
  then have "mat_dim n (Suc p) (cbind1 (r_matrix xs n))"
    using mat_dim_cbind1 [OF mat_dim_r_matrix [of n xs]] by simp
  then show ?thesis by (simp add: admm_simulate_def r1 r2 r3 Let_def)
qed

lemma qr_simulate_shape: "mat_dim n P (fst (snd (qr_simulate seed_state draw n P g)))"
  by (simp add: qr_simulate_def Let_def mat_dim_np_matrix split: prod.splits)

lemma full_col_rank_unit_rows:
  assumes "n \<le> m" and "0 < n"
  shows "mat_dim m n (map (unit_vec n) [0..<m])" and "full_col_rank (map (unit_vec n) [0..<m])"
proof -
  let ?X = "map (unit_vec n) [0..<m]"
  show d: "mat_dim m n ?X" by (simp add: mat_dim_def)
  have nX: "ncols ?X = n" using d assms by (intro ncols_dim [of m n]) simp_all
  show "full_col_rank ?X"
    unfolding full_col_rank_def nX
  proof (intro allI impI)
    fix v :: vec assume v: "length v = n" and z: "mat_vec ?X v = zero_vec (length ?X)"
    show "v = zero_vec n"
    proof (rule nth_equalityI)
      show "length v = length (zero_vec n)" using v by simp
      fix i assume "i < length v"
      then have i: "i < n" using v by simp
      then have "mat_vec ?X v ! i = v ! i" using assms v by (simp add: dot_unit_left)
      then show "v ! i = zero_vec n ! i" using z i assms by simp
    qed
  qed
qed

lemma qr_full_rank_returns:
  assumes "mat_dim m n A" and "0 < n" and "n \<le> m" and "full_col_rank A"
  shows "\<exists>Q R. qr A = Some (Q, R) \<and> mat_dim m m Q \<and> mat_dim m n R"
proof -
  obtain Q R where qr: "qr A = Some (Q, R)"
    using qr_pivots_success [OF full_rank_qr_pivots [OF assms]] by blast
  then show ?thesis using qr_returns_factorisation(1,2) [OF assms(1-3) qr] by blast
qed

text \<open>
  C9 (as amended).  The ADMM notebook's design matrix \<open>X\<close> (\<open>n = 1000\<close>, \<open>p = 10\<close>) has
  1000 rows and 11 columns and \<open>X\<^sup>T X\<close> is 11 by 11.  The QR notebook's design matrix
  has 100 rows and 5 columns, and for an input of \<open>m\<close> rows and \<open>n\<close> columns \<open>qr\<close> returns
  \<open>Q\<close> with \<open>m\<close> rows and \<open>m\<close> columns and \<open>R\<close> with \<open>m\<close> rows and \<open>n\<close> columns: on the 100 by 5
  design matrix \<open>Q\<close> is 100 by 100 and \<open>R\<close> is 100 by 5.  So these matrices have at
  most 1000 rows and at most 100 columns.
\<close>

theorem notebook_matrix_shapes:
  "mat_dim 1000 11 (fst (snd (admm_simulate draw 1000 10 g))) \<and>
   mat_dim 11 11 (mat_mul (transpose_mat (fst (snd (admm_simulate draw 1000 10 g))))
     (fst (snd (admm_simulate draw 1000 10 g)))) \<and>
   mat_dim 100 5 (fst (snd (qr_simulate seed_state draw 100 5 g))) \<and>
   (mat_dim m n A \<and> 0 < n \<and> n \<le> m \<and> qr A = Some (Q, R) \<longrightarrow>
      mat_dim m m Q \<and> mat_dim m n R) \<and>
   (mat_dim 100 5 A \<and> qr A = Some (Q, R) \<longrightarrow>
      mat_dim 100 100 Q \<and> mat_dim 100 5 R \<and> length Q \<le> 1000 \<and> ncols Q \<le> 100)"
proof -
  let ?X = "fst (snd (admm_simulate draw 1000 10 g))"
  have X: "mat_dim 1000 11 ?X"
    using admm_simulate_shape [of 1000 10 draw g] by simp
  have "mat_dim 11 1000 (transpose_mat ?X)" using X by (rule mat_dim_transpose) simp
  then have XtX: "mat_dim 11 11 (mat_mul (transpose_mat ?X) ?X)"
    using X by (rule mat_dim_mul) simp
  have x: "mat_dim 100 5 (fst (snd (qr_simulate seed_state draw 100 5 g)))"
    by (rule qr_simulate_shape)
  have gen: "mat_dim m m Q \<and> mat_dim m n R"
    if "mat_dim m n A" "0 < n" "n \<le> m" "qr A = Some (Q, R)"
    using qr_returns_factorisation(1,2) [OF that] by simp
  have nb: "mat_dim 100 100 Q \<and> mat_dim 100 5 R \<and> length Q \<le> 1000 \<and> ncols Q \<le> 100"
    if "mat_dim 100 5 A" "qr A = Some (Q, R)"
  proof -
    have d: "mat_dim 100 100 Q" "mat_dim 100 5 R"
      using qr_returns_factorisation(1,2) [OF that(1) _ _ that(2)] by simp_all
    then have "length Q = 100" "ncols Q = 100"
      by (simp_all add: mat_dimD(1) [of 100 100 Q] ncols_dim [of 100 100 Q])
    then show ?thesis using d by simp
  qed
  show ?thesis using X XtX x gen nb by blast
qed

theorem notebook_matrix_shapes_witness:
  "mat_dim 3 2 [[3, - 12 / 5], [4, 9 / 5], [0, 4]] \<and> (0::nat) < 2 \<and> (2::nat) \<le> 3 \<and>
   qr [[3, - 12 / 5], [4, 9 / 5], [0, 4]] =
     Some ([[- 3 / 5, 12 / 25, 16 / 25], [- 4 / 5, - 9 / 25, - 12 / 25], [0, - 4 / 5, 3 / 5]],
       [[- 5, 0], [0, - 5], [0, 0]]) \<and>
   mat_dim 3 3
     [[- 3 / 5, 12 / 25, 16 / 25], [- 4 / 5, - 9 / 25, - 12 / 25], [0, - 4 / 5, 3 / 5]] \<and>
   mat_dim 3 2 [[- 5, 0], [0, - 5], [0, 0]]"
  using notebook_matrix_shapes [where m = 3 and n = 2
      and A = "[[3, - 12 / 5], [4, 9 / 5], [0, 4]]"
      and Q = "[[- 3 / 5, 12 / 25, 16 / 25], [- 4 / 5, - 9 / 25, - 12 / 25], [0, - 4 / 5, 3 / 5]]"
      and R = "[[- 5, 0], [0, - 5], [0, 0]]"]
    qr_example(1)
  by (simp add: mat_dim_def)

text \<open>
  C9 as stated bounds the number of columns by 11.  On a design matrix of 100 rows and
  5 columns (here the one whose rows are the five unit vectors followed by zero rows)
  \<open>qr\<close> returns an orthogonal factor \<open>Q\<close> of 100 rows and 100 columns.
\<close>

theorem qr_orthogonal_factor_100_columns:
  "(case qr (map (unit_vec 5) [0..<100]) of
      None \<Rightarrow> False
    | Some (Q, R) \<Rightarrow> length Q = 100 \<and> ncols Q = 100 \<and> \<not> ncols Q \<le> 11)"
proof -
  have n: "(5::nat) \<le> 100" "(0::nat) < 5" by simp_all
  obtain Q R where qr: "qr (map (unit_vec 5) [0..<100]) = Some (Q, R)"
    and d: "mat_dim 100 100 Q"
    using qr_full_rank_returns [OF full_col_rank_unit_rows(1) [OF n] n(2,1)
        full_col_rank_unit_rows(2) [OF n]] by blast
  have "length Q = 100" "ncols Q = 100"
    using d by (simp_all add: mat_dimD(1) [of 100 100 Q] ncols_dim [of 100 100 Q])
  then show ?thesis by (simp add: qr)
qed

section \<open>Orthogonal families of vectors\<close>

lemma bessel_inequality:
  fixes u :: "nat \<Rightarrow> vec"
  assumes "length x = N"
    and "\<And>j. j < K \<Longrightarrow> length (u j) = N"
    and "\<And>i j. i < K \<Longrightarrow> j < K \<Longrightarrow> i \<noteq> j \<Longrightarrow> dot (u i) (u j) = 0"
    and "\<And>j. j < K \<Longrightarrow> dot (u j) (u j) \<noteq> 0"
  shows "(\<Sum>j<K. (dot x (u j))\<^sup>2 / dot (u j) (u j)) \<le> dot x x"
  using assms
proof (induction K arbitrary: x)
  case 0
  show ?case by (simp add: dot_self_nonneg)
next
  case (Suc K)
  define c where "c = dot x (u K) / dot (u K) (u K)"
  define x' where "x' = vsub x (smult c (u K))"
  have lu: "length (u j) = N" if "j < Suc K" for j using Suc.prems(2) that by simp
  have luK: "length (u K) = N" using lu by simp
  have lx: "length x = N" by fact
  have lx': "length x' = N" using lx luK by (simp add: x'_def)
  have uK: "dot (u K) (u K) \<noteq> 0" using Suc.prems(4) by simp
  have proj: "dot x' (u j) = dot x (u j)" if "j < K" for j
  proof -
    have "dot (u K) (u j) = 0" using Suc.prems(3) [of K j] that by simp
    then show ?thesis
      using lx luK lu [of j] that
      by (simp add: x'_def dot_vsub_left [where n = N] dot_smult_left [where n = N])
  qed
  have cm: "dot (u K) x = dot x (u K)" using lx luK by (simp add: dot_commute)
  have "dot x' x' = dot x x - 2 * c * dot x (u K) + c * (c * dot (u K) (u K))"
    using lx luK
    by (simp add: x'_def dot_vsub_left [where n = N] dot_vsub_right [where n = N]
        dot_smult_left [where n = N] dot_smult_right [where n = N] cm algebra_simps)
  also have "c * dot (u K) (u K) = dot x (u K)" using uK by (simp add: c_def)
  finally have "dot x' x' = dot x x - c * dot x (u K)" by simp
  also have "c * dot x (u K) = (dot x (u K))\<^sup>2 / dot (u K) (u K)"
    by (simp add: c_def power2_eq_square)
  finally have norm: "dot x' x' = dot x x - (dot x (u K))\<^sup>2 / dot (u K) (u K)" .
  have "(\<Sum>j<K. (dot x' (u j))\<^sup>2 / dot (u j) (u j)) \<le> dot x' x'"
    using lx' Suc.prems(2,3,4) by (intro Suc.IH) simp_all
  then have "(\<Sum>j<K. (dot x (u j))\<^sup>2 / dot (u j) (u j)) \<le> dot x' x'"
    by (simp add: proj)
  then show ?case by (simp add: norm)
qed

lemma orthogonal_family_bound:
  fixes u :: "nat \<Rightarrow> vec"
  assumes len: "\<And>j. j < K \<Longrightarrow> length (u j) = N"
    and orth: "\<And>i j. i < K \<Longrightarrow> j < K \<Longrightarrow> i \<noteq> j \<Longrightarrow> dot (u i) (u j) = 0"
    and nz: "\<And>j. j < K \<Longrightarrow> dot (u j) (u j) \<noteq> 0"
  shows "K \<le> N"
proof -
  have coord: "(\<Sum>j<K. (u j ! c)\<^sup>2 / dot (u j) (u j)) \<le> 1" if "c < N" for c
  proof -
    have "(\<Sum>j<K. (dot (unit_vec N c) (u j))\<^sup>2 / dot (u j) (u j)) \<le>
        dot (unit_vec N c) (unit_vec N c)"
      using len orth nz by (intro bessel_inequality [where N = N]) simp_all
    moreover have "dot (unit_vec N c) (u j) = u j ! c" if "j < K" for j
      using len [OF that] \<open>c < N\<close> by (simp add: dot_unit_left)
    moreover have "dot (unit_vec N c) (unit_vec N c) = 1"
      using that by (simp add: dot_unit_left)
    ultimately show ?thesis by simp
  qed
  have "real K = (\<Sum>j<K. 1)" by simp
  also have "\<dots> = (\<Sum>j<K. (\<Sum>c<N. (u j ! c)\<^sup>2 / dot (u j) (u j)))"
  proof (rule sum.cong [OF refl])
    fix j assume "j \<in> {..<K}"
    then have j: "j < K" by simp
    have "(\<Sum>c<N. (u j ! c)\<^sup>2 / dot (u j) (u j)) = (\<Sum>c<N. (u j ! c)\<^sup>2) / dot (u j) (u j)"
      by (simp add: sum_divide_distrib)
    also have "(\<Sum>c<N. (u j ! c)\<^sup>2) = dot (u j) (u j)"
      using len [OF j] by (simp add: dot_sum [where n = N] power2_eq_square)
    finally show "1 = (\<Sum>c<N. (u j ! c)\<^sup>2 / dot (u j) (u j))"
      using nz [OF j] by simp
  qed
  also have "\<dots> = (\<Sum>c<N. (\<Sum>j<K. (u j ! c)\<^sup>2 / dot (u j) (u j)))"
    by (rule sum.swap)
  also have "\<dots> \<le> (\<Sum>c<N. 1)"
    by (rule sum_mono) (simp add: coord)
  finally show ?thesis by simp
qed

section \<open>The conjugate gradient rounds\<close>

lemma cg_rounds_0 [simp]: "cg_rounds A s 0 = s"
  by (simp add: cg_rounds_def)

lemma cg_rounds_Suc: "cg_rounds A s (Suc j) = cg_next A (cg_rounds A s j)"
  by (simp add: cg_rounds_def)

lemma cg_rounds_Suc_front: "cg_rounds A s (Suc j) = cg_rounds A (cg_next A s) j"
  by (simp add: cg_rounds_def funpow_swap1)

lemma bilin_vadd_right:
  assumes "mat_dim N N A" and "length x = N" and "length y = N" and "length z = N"
  shows "bilin A x (vadd y z) = bilin A x y + bilin A x z"
  using assms
  by (simp add: bilin_def mat_vec_vadd [where m = N and n = N] dot_vadd_right [where n = N]
      mat_dimD(1) [of N N A])

lemma bilin_smult_right:
  assumes "mat_dim N N A" and "length x = N" and "length y = N"
  shows "bilin A x (smult c y) = c * bilin A x y"
  using assms
  by (simp add: bilin_def mat_vec_smult [where m = N and n = N] dot_smult_right [where n = N]
      mat_dimD(1) [of N N A])

lemma cg_den:
  assumes "0 < N" and "symmetric_mat N A" and "length p = N"
  shows "dot (vec_mat p A) p = bilin A p p"
proof -
  have dA: "mat_dim N N A" using assms by (simp add: symmetric_mat_def)
  have "vec_mat p A = mat_vec (transpose_mat A) p"
    using dA assms(1,3) by (rule vec_mat_transpose)
  also have "\<dots> = mat_vec A p" using symmetric_transpose [OF assms(2,1)] by simp
  finally show ?thesis
    using assms(3) dA by (simp add: bilin_def dot_commute mat_dimD(1) [of N N A])
qed

lemma cg_next_fields:
  assumes "0 < N" and "symmetric_mat N A" and "length (pk s) = N"
  shows "rk (cg_next A s) =
      vadd (rk s) (smult (dot (rk s) (rk s) / bilin A (pk s) (pk s)) (mat_vec A (pk s)))"
    and "pk (cg_next A s) =
      vadd (smult (- 1) (rk (cg_next A s)))
        (smult (dot (rk (cg_next A s)) (rk (cg_next A s)) / dot (rk s) (rk s)) (pk s))"
    and "xk (cg_next A s) =
      vadd (xk s) (smult (dot (rk s) (rk s) / bilin A (pk s) (pk s)) (pk s))"
  using cg_den [OF assms] by (simp_all add: cg_next_def Let_def)

lemma cg_inv_0:
  assumes "length (rk s0) = N" and "pk s0 = smult (- 1) (rk s0)"
  shows "cg_inv N A s0 0"
  using assms by (simp add: cg_inv_def dot_smult_right [where n = N])

lemma cg_inv_Suc:
  assumes N: "0 < N" and sym: "symmetric_mat N A" and pd: "pos_def N A"
    and p0: "pk s0 = smult (- 1) (rk s0)"
    and inv: "cg_inv N A s0 k"
    and nz: "\<And>j. j \<le> k \<Longrightarrow> rk (cg_rounds A s0 j) \<noteq> zero_vec N"
  shows "cg_inv N A s0 (Suc k)"
proof -
  define r where "r j = rk (cg_rounds A s0 j)" for j
  define p where "p j = pk (cg_rounds A s0 j)" for j
  define al where "al j = dot (r j) (r j) / bilin A (p j) (p j)" for j
  define be where "be j = dot (r (Suc j)) (r (Suc j)) / dot (r j) (r j)" for j
  have dA: "mat_dim N N A" using sym by (simp add: symmetric_mat_def)
  have lA: "length A = N" using dA by (rule mat_dimD(1))
  have sf: "bilin A x y = bilin A y x" if "length x = N" "length y = N" for x y
    using symmetric_sym_form [OF sym N] that by (simp add: sym_form_def)
  have Lr: "length (r j) = N" and Lp: "length (p j) = N"
    and D: "dot (r j) (p j) = - dot (r j) (r j)" if "j \<le> k" for j
    using inv that by (simp_all add: cg_inv_def r_def p_def)
  have O: "dot (r j) (r i) = 0" and C: "bilin A (p i) (p j) = 0"
    and R: "dot (r j) (p i) = 0" if "j \<le> k" "i < j" for i j
    using inv that by (simp_all add: cg_inv_def r_def p_def)
  have rr: "0 < dot (r j) (r j)" if "j \<le> k" for j
  proof -
    have "dot (r j) (r j) \<noteq> 0"
      using nz [OF that] dot_self_eq_0_zero [OF Lr [OF that]] by (simp add: r_def)
    then show ?thesis using dot_self_nonneg [of "r j"] by simp
  qed
  have pnz: "p j \<noteq> zero_vec N" if "j \<le> k" for j
  proof
    assume "p j = zero_vec N"
    then have "dot (r j) (p j) = 0" using dot_zero_right [OF Lr [OF that]] by simp
    then show False using D [OF that] rr [OF that] by simp
  qed
  have den: "0 < bilin A (p j) (p j)" if "j \<le> k" for j
    using pd pnz [OF that] Lp [OF that] by (simp add: pos_def_def bilin_def)
  have alnz: "al j \<noteq> 0" if "j \<le> k" for j
    using den [OF that] rr [OF that] by (simp add: al_def)
  have alden: "al j * bilin A (p j) (p j) = dot (r j) (r j)" if "j \<le> k" for j
    using den [OF that] by (simp add: al_def)
  have berr: "be j * dot (r j) (r j) = dot (r (Suc j)) (r (Suc j))" if "j \<le> k" for j
    using rr [OF that] by (simp add: be_def)
  have recr: "r (Suc j) = vadd (r j) (smult (al j) (mat_vec A (p j)))" if "j \<le> k" for j
    using cg_next_fields(1) [OF N sym, of "cg_rounds A s0 j"] Lp [OF that]
    by (simp add: r_def p_def al_def cg_rounds_Suc)
  have recp: "p (Suc j) = vadd (smult (- 1) (r (Suc j))) (smult (be j) (p j))" if "j \<le> k" for j
    using cg_next_fields(2) [OF N sym, of "cg_rounds A s0 j"] Lp [OF that]
    by (simp add: r_def p_def be_def cg_rounds_Suc)
  have LrS: "length (r (Suc j)) = N" if "j \<le> k" for j
    using recr [OF that] Lr [OF that] lA by simp
  have LpS: "length (p (Suc j)) = N" if "j \<le> k" for j
    using recp [OF that] LrS [OF that] Lp [OF that] by simp
  have dot_recr: "dot (r (Suc j)) z = dot (r j) z + al j * bilin A z (p j)"
    if "j \<le> k" "length z = N" for j z
  proof -
    have "dot (r (Suc j)) z = dot (r j) z + al j * dot (mat_vec A (p j)) z"
      using recr [OF that(1)] Lr [OF that(1)] that(2) lA
      by (simp add: dot_vadd_left [where n = N] dot_smult_left [where n = N])
    also have "dot (mat_vec A (p j)) z = bilin A z (p j)"
      using that(2) lA by (simp add: bilin_def dot_commute)
    finally show ?thesis .
  qed
  have dot_recp: "dot z (p (Suc j)) = - dot z (r (Suc j)) + be j * dot z (p j)"
    if "j \<le> k" "length z = N" for j z
    using recp [OF that(1)] LrS [OF that(1)] Lp [OF that(1)] that(2)
    by (simp add: dot_vadd_right [where n = N] dot_smult_right [where n = N])
  have bilin_recp: "bilin A z (p (Suc j)) = - bilin A z (r (Suc j)) + be j * bilin A z (p j)"
    if "j \<le> k" "length z = N" for j z
    using recp [OF that(1)] LrS [OF that(1)] Lp [OF that(1)] that(2)
    by (simp add: bilin_vadd_right [OF dA] bilin_smult_right [OF dA])
  have LrK: "length (r (Suc k)) = N" by (rule LrS) simp
  have R': "dot (r (Suc k)) (p i) = 0" if "i \<le> k" for i
  proof (cases "i = k")
    case True
    have "dot (r (Suc k)) (p k) = dot (r k) (p k) + al k * bilin A (p k) (p k)"
      by (rule dot_recr) (simp_all add: Lp)
    then show ?thesis using True D [of k] alden [of k] by simp
  next
    case False
    then have ik: "i < k" using that by simp
    have "dot (r (Suc k)) (p i) = dot (r k) (p i) + al k * bilin A (p i) (p k)"
      by (rule dot_recr) (simp_all add: Lp that)
    then show ?thesis using R [OF _ ik] C [OF _ ik] by simp
  qed
  have O': "dot (r (Suc k)) (r i) = 0" if "i \<le> k" for i
  proof (cases i)
    case 0
    have "p 0 = smult (- 1) (r 0)" using p0 by (simp add: p_def r_def)
    then have "dot (r (Suc k)) (p 0) = - dot (r (Suc k)) (r 0)"
      using LrK Lr [of 0] by (simp add: dot_smult_right [where n = N])
    then show ?thesis using R' [of 0] 0 by simp
  next
    case (Suc i')
    then have i': "i' \<le> k" "Suc i' \<le> k" using that by simp_all
    have "dot (r (Suc k)) (p (Suc i')) =
        - dot (r (Suc k)) (r (Suc i')) + be i' * dot (r (Suc k)) (p i')"
      using i'(1) LrK by (rule dot_recp)
    then show ?thesis using R' [OF i'(1)] R' [OF i'(2)] Suc by simp
  qed
  have D': "dot (r (Suc k)) (p (Suc k)) = - dot (r (Suc k)) (r (Suc k))"
    using dot_recp [of k "r (Suc k)"] LrK R' [of k] by simp
  have C': "bilin A (p i) (p (Suc k)) = 0" if "i \<le> k" for i
  proof -
    have e1: "bilin A (p i) (p (Suc k)) =
        - bilin A (p i) (r (Suc k)) + be k * bilin A (p i) (p k)"
      by (rule bilin_recp) (simp_all add: Lp that)
    have e2: "dot (r (Suc i)) (r (Suc k)) =
        dot (r i) (r (Suc k)) + al i * bilin A (r (Suc k)) (p i)"
      using that LrK by (rule dot_recr)
    have e3: "bilin A (r (Suc k)) (p i) = bilin A (p i) (r (Suc k))"
      using LrK Lp [OF that] by (rule sf)
    have e4: "dot (r i) (r (Suc k)) = 0"
      using O' [OF that] Lr [OF that] LrK by (simp add: dot_commute)
    show ?thesis
    proof (cases "i = k")
      case True
      have e5: "al k * bilin A (p k) (r (Suc k)) = dot (r (Suc k)) (r (Suc k))"
        using e2 e3 e4 True by simp
      have "al k * bilin A (p k) (p (Suc k)) =
          al k * (- bilin A (p k) (r (Suc k)) + be k * bilin A (p k) (p k))"
        using e1 True by simp
      also have "\<dots> = - (al k * bilin A (p k) (r (Suc k))) +
          be k * (al k * bilin A (p k) (p k))"
        by (simp add: algebra_simps)
      also have "\<dots> = - dot (r (Suc k)) (r (Suc k)) + be k * (al k * bilin A (p k) (p k))"
        by (simp only: e5)
      also have "\<dots> = 0" using alden [of k] berr [of k] by simp
      finally show ?thesis using alnz [of k] True by simp
    next
      case False
      then have ik: "i < k" "Suc i \<le> k" using that by simp_all
      have "dot (r (Suc i)) (r (Suc k)) = 0"
        using O' [OF ik(2)] LrS [OF that] LrK by (simp add: dot_commute)
      then have "al i * bilin A (p i) (r (Suc k)) = 0" using e2 e3 e4 by simp
      then have "bilin A (p i) (r (Suc k)) = 0" using alnz [OF that] by simp
      then show ?thesis using e1 C [OF _ ik(1)] by simp
    qed
  qed
  show ?thesis
    unfolding cg_inv_def r_def [symmetric] p_def [symmetric]
  proof (intro conjI allI impI)
    fix j assume "j \<le> Suc k"
    then consider "j \<le> k" | "j = Suc k" by (auto simp: le_Suc_eq)
    then show "length (r j) = N"
      by cases (simp_all add: Lr LrK)
  next
    fix j assume "j \<le> Suc k"
    then consider "j \<le> k" | "j = Suc k" by (auto simp: le_Suc_eq)
    then show "length (p j) = N"
      by cases (simp_all add: Lp LpS)
  next
    fix j assume "j \<le> Suc k"
    then consider "j \<le> k" | "j = Suc k" by (auto simp: le_Suc_eq)
    then show "dot (r j) (p j) = - dot (r j) (r j)"
      by cases (simp_all add: D D')
  next
    fix j i assume "j \<le> Suc k" "i < j"
    then consider "j \<le> k" | "j = Suc k" "i \<le> k" by (auto simp: le_Suc_eq)
    then show "dot (r j) (r i) = 0"
      using \<open>i < j\<close> by cases (simp_all add: O O')
  next
    fix j i assume "j \<le> Suc k" "i < j"
    then consider "j \<le> k" | "j = Suc k" "i \<le> k" by (auto simp: le_Suc_eq)
    then show "bilin A (p i) (p j) = 0"
      using \<open>i < j\<close> by cases (simp_all add: C C')
  next
    fix j i assume "j \<le> Suc k" "i < j"
    then consider "j \<le> k" | "j = Suc k" "i \<le> k" by (auto simp: le_Suc_eq)
    then show "dot (r j) (p i) = 0"
      using \<open>i < j\<close> by cases (simp_all add: R R')
  qed
qed

lemma cg_inv_rounds:
  assumes N: "0 < N" and sym: "symmetric_mat N A" and pd: "pos_def N A"
    and r0: "length (rk s0) = N" and p0: "pk s0 = smult (- 1) (rk s0)"
    and nz: "\<And>j. j < k \<Longrightarrow> rk (cg_rounds A s0 j) \<noteq> zero_vec N"
  shows "cg_inv N A s0 k"
  using nz
proof (induction k)
  case 0
  show ?case using r0 p0 by (rule cg_inv_0)
next
  case (Suc k)
  have "cg_inv N A s0 k" by (rule Suc.IH) (simp add: Suc.prems)
  with N sym pd p0 show ?case
    by (rule cg_inv_Suc) (simp add: Suc.prems)
qed

lemma cg_residual_vanishes:
  assumes N: "0 < N" and sym: "symmetric_mat N A" and pd: "pos_def N A"
    and r0: "length (rk s0) = N" and p0: "pk s0 = smult (- 1) (rk s0)"
  shows "\<exists>k. k \<le> N \<and> rk (cg_rounds A s0 k) = zero_vec N"
proof (rule ccontr)
  assume "\<not> ?thesis"
  then have nz: "rk (cg_rounds A s0 j) \<noteq> zero_vec N" if "j \<le> N" for j
    using that by blast
  have inv: "cg_inv N A s0 N"
    using N sym pd r0 p0 by (rule cg_inv_rounds) (simp add: nz)
  define u where "u j = rk (cg_rounds A s0 j)" for j
  have len: "length (u j) = N" if "j < Suc N" for j
    using inv that by (simp add: cg_inv_def u_def)
  have orth: "dot (u i) (u j) = 0" if "i < Suc N" "j < Suc N" "i \<noteq> j" for i j
  proof (cases "i < j")
    case True
    then have "dot (u j) (u i) = 0" using inv that by (simp add: cg_inv_def u_def)
    then show ?thesis using len [OF that(1)] len [OF that(2)] by (simp add: dot_commute)
  next
    case False
    then have "j < i" using that by simp
    then show ?thesis using inv that by (simp add: cg_inv_def u_def)
  qed
  have nzu: "dot (u j) (u j) \<noteq> 0" if "j < Suc N" for j
    using nz [of j] that dot_self_eq_0_zero [OF len [OF that]] by (simp add: u_def)
  have "Suc N \<le> N"
    using len orth nzu by (rule orthogonal_family_bound)
  then show False by simp
qed

lemma cg_continue_nonzero:
  assumes "cg_continue s" shows "rk s \<noteq> zero_vec N"
  using assms by (auto simp: cg_continue_def zero_vec_def list_ex_iff)

lemma cg_step_defined:
  assumes N: "0 < N" and sym: "symmetric_mat N A" and pd: "pos_def N A"
    and inv: "cg_inv N A s0 k" and nz: "rk (cg_rounds A s0 k) \<noteq> zero_vec N"
  shows "cg_step A (cg_rounds A s0 k) = Some (cg_rounds A s0 (Suc k))"
proof -
  let ?s = "cg_rounds A s0 k"
  have L: "length (rk ?s) = N" "length (pk ?s) = N"
    and D: "dot (rk ?s) (pk ?s) = - dot (rk ?s) (rk ?s)"
    using inv by (simp_all add: cg_inv_def)
  have rr: "dot (rk ?s) (rk ?s) \<noteq> 0"
    using nz dot_self_eq_0_zero [OF L(1)] by simp
  have "pk ?s \<noteq> zero_vec N"
  proof
    assume "pk ?s = zero_vec N"
    then have "dot (rk ?s) (pk ?s) = 0" using dot_zero_right [OF L(1)] by simp
    then show False using D rr by simp
  qed
  then have "0 < bilin A (pk ?s) (pk ?s)"
    using pd L(2) by (simp add: pos_def_def bilin_def)
  then have "dot (vec_mat (pk ?s) A) (pk ?s) \<noteq> 0"
    using cg_den [OF N sym L(2)] by simp
  then show ?thesis using rr by (simp add: cg_step_def cg_rounds_Suc)
qed

lemma cg_loop_rounds:
  assumes "\<And>j. j < k \<Longrightarrow> cg_continue (cg_rounds A s j)"
    and "\<And>j. j < k \<Longrightarrow> cg_step A (cg_rounds A s j) = Some (cg_rounds A s (Suc j))"
    and "\<not> cg_continue (cg_rounds A s k)"
  shows "cg_loop A s c = Some (cg_rounds A s k, c + k)"
  using assms
proof (induction k arbitrary: s c)
  case 0
  then show ?case by (subst cg_loop.simps) simp
next
  case (Suc k)
  have c0: "cg_continue s" using Suc.prems(1) [of 0] by simp
  have s0: "cg_step A s = Some (cg_next A s)"
    using Suc.prems(2) [of 0] by (simp add: cg_rounds_Suc)
  have "cg_loop A (cg_next A s) (Suc c) = Some (cg_rounds A (cg_next A s) k, Suc c + k)"
  proof (rule Suc.IH)
    fix j assume "j < k"
    then show "cg_continue (cg_rounds A (cg_next A s) j)"
      using Suc.prems(1) [of "Suc j"] by (simp add: cg_rounds_Suc_front)
    show "cg_step A (cg_rounds A (cg_next A s) j) = Some (cg_rounds A (cg_next A s) (Suc j))"
      using Suc.prems(2) [of "Suc j"] \<open>j < k\<close> by (simp add: cg_rounds_Suc_front)
  next
    show "\<not> cg_continue (cg_rounds A (cg_next A s) k)"
      using Suc.prems(3) by (simp add: cg_rounds_Suc_front)
  qed
  then show ?case
    using c0 s0 by (subst cg_loop.simps) (simp add: cg_rounds_Suc_front)
qed

lemma cg_init_fields:
  "xk (cg_init A b x0) = x0" "rk (cg_init A b x0) = vsub (mat_vec A x0) b"
  "pk (cg_init A b x0) = smult (- 1) (rk (cg_init A b x0))"
  by (simp_all add: cg_init_def Let_def)

lemma conjugate_gradient_terminates:
  assumes N: "0 < N" and sym: "symmetric_mat N A" and pd: "pos_def N A"
    and b: "length b = N"
  shows "\<exists>k. k \<le> N \<and> \<not> cg_continue (cg_rounds A (cg_init A b x0) k) \<and>
      conjugate_gradient A b x0 = Some (cg_rounds A (cg_init A b x0) k, k)"
proof -
  let ?s = "cg_init A b x0"
  have lA: "length A = N" using sym by (simp add: symmetric_mat_def mat_dimD(1) [of N N A])
  have r0: "length (rk ?s) = N" using lA b by (simp add: cg_init_fields)
  have p0: "pk ?s = smult (- 1) (rk ?s)" by (rule cg_init_fields)
  obtain m where m: "m \<le> N" "rk (cg_rounds A ?s m) = zero_vec N"
    using cg_residual_vanishes [OF N sym pd r0 p0] by blast
  have stop: "\<not> cg_continue (cg_rounds A ?s m)"
    using m(2) cg_continue_nonzero by blast
  define k where "k = (LEAST j. \<not> cg_continue (cg_rounds A ?s j))"
  have k: "\<not> cg_continue (cg_rounds A ?s k)"
    unfolding k_def using stop by (rule LeastI)
  have km: "k \<le> m" unfolding k_def using stop by (rule Least_le)
  have before: "cg_continue (cg_rounds A ?s j)" if "j < k" for j
    using not_less_Least [of j "\<lambda>j. \<not> cg_continue (cg_rounds A ?s j)"] that
    by (simp add: k_def)
  have nz: "rk (cg_rounds A ?s j) \<noteq> zero_vec N" if "j < k" for j
    using before [OF that] by (rule cg_continue_nonzero)
  have step: "cg_step A (cg_rounds A ?s j) = Some (cg_rounds A ?s (Suc j))" if "j < k" for j
  proof -
    have "cg_inv N A ?s j"
      using N sym pd r0 p0 by (rule cg_inv_rounds) (use that in \<open>simp add: nz\<close>)
    with N sym pd show ?thesis by (rule cg_step_defined) (rule nz [OF that])
  qed
  have "cg_loop A ?s 0 = Some (cg_rounds A ?s k, 0 + k)"
    using before step k by (rule cg_loop_rounds)
  then show ?thesis using k km m(1) by (auto simp: conjugate_gradient_def)
qed

section \<open>Termination of the iterative routines\<close>

lemma admm_loop_funpow:
  "admm_loop rounds W c rho lambda s = (admm_update W c rho lambda ^^ rounds) s"
  by (induction rounds) (simp_all add: admm_loop_0 admm_loop_Suc)

lemma pos_def_diag_2: "0 < p \<Longrightarrow> 0 < q \<Longrightarrow> pos_def 2 [[p, 0], [0, q]]"
  unfolding pos_def_def
proof (intro allI impI)
  fix x :: vec assume pq: "0 < p" "0 < q" and "length x = 2" and nz: "x \<noteq> zero_vec 2"
  then obtain a b where x: "x = [a, b]"
    by (cases x; cases "tl x") (auto simp: numeral_2_eq_2)
  have ab: "a \<noteq> 0 \<or> b \<noteq> 0" using nz x by (auto simp: zero_vec_def numeral_2_eq_2)
  have sq: "0 \<le> p * (a * a)" "0 \<le> q * (b * b)" using pq by simp_all
  have "0 < p * (a * a) \<or> 0 < q * (b * b)" using ab pq by (auto simp: zero_less_mult_iff)
  then have "0 < p * (a * a) + q * (b * b)" using sq by linarith
  then show "0 < dot x (mat_vec [[p, 0], [0, q]] x)"
    by (simp add: x mat_vec_def dot_def mult.left_commute)
qed

text \<open>
  C4 (amended).  The ADMM loop \<^verbatim>\<open>for (i in seq(100))\<close> applies its body a number of
  times that is fixed before it starts.  The conjugate gradient loop is a
  \<^verbatim>\<open>while\<close> loop with no such number: how many rounds it runs depends on \<open>A\<close>, \<open>b\<close>
  and the starting point.  In exact arithmetic it nevertheless returns for every
  symmetric positive definite \<open>A\<close> of size \<open>N > 0\<close>, every \<open>b\<close> of length \<open>N\<close> and every
  starting point, after at most \<open>N\<close> rounds, in a state where the exit test holds.
\<close>

theorem iterative_routines_terminate:
  assumes "0 < N" and "symmetric_mat N A" and "pos_def N A" and "length b = N"
  shows "admm_loop rounds W c rho lambda s0 = (admm_update W c rho lambda ^^ rounds) s0 \<and>
    (\<exists>s k. conjugate_gradient A b x0 = Some (s, k) \<and> k \<le> N \<and> \<not> cg_continue s \<and>
       s = cg_rounds A (cg_init A b x0) k)"
proof
  show "admm_loop rounds W c rho lambda s0 = (admm_update W c rho lambda ^^ rounds) s0"
    by (rule admm_loop_funpow)
  show "\<exists>s k. conjugate_gradient A b x0 = Some (s, k) \<and> k \<le> N \<and> \<not> cg_continue s \<and>
       s = cg_rounds A (cg_init A b x0) k"
    using conjugate_gradient_terminates [OF assms, of x0] by blast
qed

theorem iterative_routines_terminate_witness:
  "admm_loop 100 [[1]] [1] 1 0 (admm_init 1) = (admm_update [[1]] [1] 1 0 ^^ 100) (admm_init 1) \<and>
   (\<exists>s k. conjugate_gradient [[1, 0], [0, 2]] [0, 0] [- 1, 1 / 2] = Some (s, k) \<and> k \<le> 2 \<and>
      \<not> cg_continue s \<and> s = cg_rounds [[1, 0], [0, 2]] (cg_init [[1, 0], [0, 2]] [0, 0] [- 1, 1 / 2]) k)"
  using iterative_routines_terminate [of 2 "[[1, 0], [0, 2]]" "[0, 0]" 100 "[[1]]" "[1]" 1 0
      "admm_init 1" "[- 1, 1 / 2]"]
    symmetric_diag_2 [of 1 2] pos_def_diag_2 [of 1 2]
  by simp

text \<open>
  The number of rounds of the conjugate gradient loop is not fixed beforehand: for
  the same \<open>A\<close> and \<open>b\<close> the loop runs no round from one starting point and one round
  from another.
\<close>

theorem conjugate_gradient_rounds_vary:
  "conjugate_gradient [[1]] [1] [1] = Some (\<lparr>xk = [1], rk = [0], pk = [0]\<rparr>, 0) \<and>
   conjugate_gradient [[1]] [1] [2] = Some (\<lparr>xk = [1], rk = [0], pk = [0]\<rparr>, 1)"
proof
  show "conjugate_gradient [[1]] [1] [1] = Some (\<lparr>xk = [1], rk = [0], pk = [0]\<rparr>, 0)"
    by (subst conjugate_gradient_def, subst cg_loop.simps)
      (simp add: cg_init_def cg_continue_def Let_def vsub_def mat_vec_def dot_def smult_def)
  show "conjugate_gradient [[1]] [1] [2] = Some (\<lparr>xk = [1], rk = [0], pk = [0]\<rparr>, 1)"
    by (subst conjugate_gradient_def, subst cg_loop.simps, subst cg_loop.simps)
      (simp add: cg_init_def cg_continue_def cg_step_def cg_next_def Let_def vsub_def vadd_def
        mat_vec_def vec_mat_def col_def ncols_def dot_def smult_def)
qed

end
